theory Spec2Isabelle
  imports Complex_Main "HOL-Library.Code_Target_Nat"
begin

section \<open>Expense log converter: data model\<close>

text \<open>
  The development follows \<^verbatim>\<open>convert.py\<close>. Strings are lists of characters with
  code points below 256. A \<^verbatim>\<open>datetime\<close> of the ledger is a timezone-aware datetime in
  UTC, as \<^verbatim>\<open>parse_expense_log\<close> builds it with \<^verbatim>\<open>.astimezone(ZoneInfo("UTC"))\<close>;
  it is represented by its instant, the number of microseconds since
  0001-01-01T00:00:00 UTC, so that Python's \<^verbatim>\<open><\<close> on two such datetimes is \<open><\<close> on
  the instants. A naive local datetime, before the conversion, is the record \<open>civil\<close>
  of its fields.

  A \<^verbatim>\<open>Decimal\<close> is a sign, a coefficient and an exponent, or one of the special values;
  the flag is \<open>True\<close> for a negative sign.

  A \<^verbatim>\<open>Category\<close> is a mutable object with identity (the class defines no
  \<^verbatim>\<open>__eq__\<close> or \<^verbatim>\<open>__hash__\<close>), and several transactions may hold the same
  instance, so categories live in an explicit store indexed by references. A
  \<^verbatim>\<open>Transaction\<close> is never mutated after its construction by the operations modelled
  here and is a plain value holding the reference of its category. The private
  attributes \<^verbatim>\<open>__name\<close>, \<^verbatim>\<open>__created_at\<close>, ... carry a prefix for the class.
\<close>

type_synonym datetime = int

record civil =
  dt_year :: int
  dt_month :: int
  dt_day :: int
  dt_hour :: int
  dt_minute :: int
  dt_second :: int

datatype decimal =
    Finite bool nat int
  | Infinity bool
  | NaN bool nat
  | sNaN bool nat

type_synonym ref = nat

record Category =
  c_name :: string
  c_created_at :: "datetime option"

type_synonym heap = "ref \<Rightarrow> Category"

record Transaction =
  t_created_at :: datetime
  t_amount :: decimal
  t_category :: ref
  t_notes :: string

datatype error =
    KeyError
  | IndexError
  | ValueError
  | OverflowError
  | AssertionError
  | InvalidOperation
  | Overflow
  | CsvError
  | UnicodeDecodeError

text \<open>Sequencing of steps that may raise: the first exception ends the computation.\<close>

definition bind :: "error + 'a \<Rightarrow> ('a \<Rightarrow> error + 'b) \<Rightarrow> error + 'b" where
  "bind x f = (case x of Inl e \<Rightarrow> Inl e | Inr v \<Rightarrow> f v)"

text \<open>\<^verbatim>\<open>row[i]\<close> for a non-negative constant index.\<close>

definition index :: "'a list \<Rightarrow> nat \<Rightarrow> error + 'a" where
  "index xs i = (if i < length xs then Inr (xs ! i) else Inl IndexError)"

section \<open>The string methods the program calls\<close>

text \<open>
  \<^verbatim>\<open>str.replace(old, new)\<close>: the occurrences of \<open>old\<close> are replaced from left to right,
  without overlap. For an empty \<open>old\<close>, Python inserts \<open>new\<close> before every character
  and at the end.
\<close>

function replace_from :: "string \<Rightarrow> string \<Rightarrow> string \<Rightarrow> string" where
  "replace_from old new [] = []"
| "replace_from old new (c # cs) =
     (if old \<noteq> [] \<and> take (length old) (c # cs) = old
      then new @ replace_from old new (drop (length old) (c # cs))
      else c # replace_from old new cs)"
  by pat_completeness auto
termination
  by (relation "measure (\<lambda>(old, new, s). length s)") auto

definition str_replace :: "string \<Rightarrow> string \<Rightarrow> string \<Rightarrow> string" where
  "str_replace old new s =
     (if old = [] then new @ concat (map (\<lambda>c. c # new) s) else replace_from old new s)"

text \<open>
  \<^verbatim>\<open>str.split(sep)\<close> for a non-empty separator (the program passes the constants
  \<^verbatim>\<open>"/"\<close>, \<^verbatim>\<open>":"\<close> and \<^verbatim>\<open>"$"\<close>): the pieces between the occurrences of the
  separator, found from left to right; the result has at least one piece.
\<close>

function str_split :: "string \<Rightarrow> string \<Rightarrow> string list" where
  "str_split sep [] = [[]]"
| "str_split sep (c # cs) =
     (if sep \<noteq> [] \<and> take (length sep) (c # cs) = sep
      then [] # str_split sep (drop (length sep) (c # cs))
      else (case str_split sep cs of
              [] \<Rightarrow> [[c]]
            | p # ps \<Rightarrow> (c # p) # ps))"
  by pat_completeness auto
termination
  by (relation "measure (\<lambda>(sep, s). length s)") auto

text \<open>
  Whitespace: \<^verbatim>\<open>str.strip()\<close> and \<^verbatim>\<open>Decimal\<close> remove the characters for which
  \<^verbatim>\<open>str.isspace\<close> holds; \<^verbatim>\<open>int\<close> does not count the separators U+001C to U+001F.
\<close>

definition is_space :: "char \<Rightarrow> bool" where
  "is_space c = ((of_char c :: nat) \<in> {9, 10, 11, 12, 13, 28, 29, 30, 31, 32, 133, 160})"

definition int_space :: "char \<Rightarrow> bool" where
  "int_space c = ((of_char c :: nat) \<in> {9, 10, 11, 12, 13, 32, 133, 160})"

definition str_strip :: "string \<Rightarrow> string" where
  "str_strip s = rev (dropWhile is_space (rev (dropWhile is_space s)))"

definition is_digit :: "char \<Rightarrow> bool" where
  "is_digit c = (48 \<le> (of_char c :: nat) \<and> (of_char c :: nat) \<le> 57)"

definition digit_val :: "char \<Rightarrow> nat" where
  "digit_val c = of_char c - 48"

definition digits_value :: "string \<Rightarrow> nat" where
  "digits_value ds = foldl (\<lambda>a c. 10 * a + digit_val c) 0 ds"

definition split_sign :: "string \<Rightarrow> bool \<times> string" where
  "split_sign s =
     (case s of
        [] \<Rightarrow> (False, [])
      | c # cs \<Rightarrow>
          if c = CHR ''-'' then (True, cs)
          else if c = CHR ''+'' then (False, cs)
          else (False, s))"

section \<open>The built-in int\<close>

text \<open>
  \<^verbatim>\<open>int(s)\<close> in base 10: surrounding whitespace, one optional sign, then digits with
  single underscores between them; more than \<open>int_max_str_digits\<close> digits (the
  interpreter's default limit) are refused.
\<close>

definition int_max_str_digits :: nat where
  "int_max_str_digits = 4300"

fun double_underscore :: "string \<Rightarrow> bool" where
  "double_underscore (a # b # cs) =
     ((a = CHR ''_'' \<and> b = CHR ''_'') \<or> double_underscore (b # cs))"
| "double_underscore _ = False"

definition py_int :: "string \<Rightarrow> error + int" where
  "py_int x =
     (let s = rev (dropWhile int_space (rev (dropWhile int_space x)));
          sb = split_sign s;
          b = snd sb;
          ds = filter is_digit b
      in if b \<noteq> [] \<and> list_all (\<lambda>c. is_digit c \<or> c = CHR ''_'') b
            \<and> hd b \<noteq> CHR ''_'' \<and> last b \<noteq> CHR ''_'' \<and> \<not> double_underscore b
         then (if int_max_str_digits < length ds then Inl ValueError
               else Inr (if fst sb then - int (digits_value ds) else int (digits_value ds)))
         else Inl ValueError)"

section \<open>The datetime module\<close>

definition is_leap :: "int \<Rightarrow> bool" where
  "is_leap y = (y mod 4 = 0 \<and> (y mod 100 \<noteq> 0 \<or> y mod 400 = 0))"

definition days_in_month :: "int \<Rightarrow> int \<Rightarrow> int" where
  "days_in_month y m =
     (if m = 2 then (if is_leap y then 29 else 28)
      else if m = 4 \<or> m = 6 \<or> m = 9 \<or> m = 11 then 30 else 31)"

definition days_before_year :: "int \<Rightarrow> int" where
  "days_before_year y = (y - 1) * 365 + (y - 1) div 4 - (y - 1) div 100 + (y - 1) div 400"

definition days_before_month_tab :: "int list" where
  "days_before_month_tab = [0, 0, 31, 59, 90, 120, 151, 181, 212, 243, 273, 304, 334]"

definition days_before_month :: "int \<Rightarrow> int \<Rightarrow> int" where
  "days_before_month y m =
     days_before_month_tab ! nat m + (if 2 < m \<and> is_leap y then 1 else 0)"

definition ymd2ord :: "int \<Rightarrow> int \<Rightarrow> int \<Rightarrow> int" where
  "ymd2ord y m d = days_before_year y + days_before_month y m + d"

text \<open>
  The constructor \<^verbatim>\<open>datetime(year, month, day, hour, minute, second, tzinfo=...)\<close>:
  every argument must fit a C int, then the fields are range checked.
\<close>

definition c_int :: "int \<Rightarrow> bool" where
  "c_int i = (- 2147483648 \<le> i \<and> i \<le> 2147483647)"

definition datetime_new :: "int \<Rightarrow> int \<Rightarrow> int \<Rightarrow> int \<Rightarrow> int \<Rightarrow> int \<Rightarrow> error + civil" where
  "datetime_new y m d hh mi ss =
     (if \<not> (c_int y \<and> c_int m \<and> c_int d \<and> c_int hh \<and> c_int mi \<and> c_int ss)
      then Inl OverflowError
      else if 1 \<le> y \<and> y \<le> 9999 \<and> 1 \<le> m \<and> m \<le> 12 \<and> 1 \<le> d \<and> d \<le> days_in_month y m
              \<and> 0 \<le> hh \<and> hh \<le> 23 \<and> 0 \<le> mi \<and> mi \<le> 59 \<and> 0 \<le> ss \<and> ss \<le> 59
      then Inr \<lparr>dt_year = y, dt_month = m, dt_day = d, dt_hour = hh, dt_minute = mi, dt_second = ss\<rparr>
      else Inl ValueError)"

text \<open>The fields of a naive datetime as seconds since 0001-01-01T00:00:00.\<close>

definition civil_seconds :: "civil \<Rightarrow> int" where
  "civil_seconds c =
     (ymd2ord (dt_year c) (dt_month c) (dt_day c) - 1) * 86400
       + dt_hour c * 3600 + dt_minute c * 60 + dt_second c"

definition max_ordinal :: int where
  "max_ordinal = 3652059"

text \<open>
  \<^verbatim>\<open>dt.astimezone(ZoneInfo("UTC"))\<close> for \<open>dt\<close> with the fields \<open>c\<close> and the time zone
  \<open>tz\<close>: the offset \<^verbatim>\<open>tz.utcoffset(dt)\<close> is subtracted, and a result outside the years
  1 to 9999 raises. The rules of the zone America/Edmonton are data of the system's
  time zone database; the zone is the parameter \<open>tz\<close>, which gives the offset from UTC
  in seconds that the zone applies to a local datetime.
\<close>

definition astimezone :: "(civil \<Rightarrow> int) \<Rightarrow> civil \<Rightarrow> error + datetime" where
  "astimezone tz c =
     (let u = civil_seconds c - tz c
      in if 0 \<le> u \<and> u < max_ordinal * 86400 then Inr (u * 1000000) else Inl OverflowError)"

text \<open>\<^verbatim>\<open>_ord2ymd\<close> of the datetime module, on the ordinal minus one.\<close>

definition ord2ymd :: "int \<Rightarrow> int \<times> int \<times> int" where
  "ord2ymd n0 =
     (let n400 = n0 div 146097; r400 = n0 mod 146097;
          n100 = r400 div 36524; r100 = r400 mod 36524;
          n4 = r100 div 1461; r4 = r100 mod 1461;
          n1 = r4 div 365; n = r4 mod 365;
          y = n400 * 400 + 1 + n100 * 100 + n4 * 4 + n1
      in if n1 = 4 \<or> n100 = 4 then (y - 1, 12, 31)
         else
           (let leapyear = (n1 = 3 \<and> (n4 \<noteq> 24 \<or> n100 = 3));
                m = (n + 50) div 32;
                preceding = days_before_month_tab ! nat m + (if 2 < m \<and> leapyear then 1 else 0)
            in if n < preceding
               then (let m' = m - 1;
                         dim = (if m' = 2 then (if leapyear then 29 else 28)
                                else if m' = 4 \<or> m' = 6 \<or> m' = 9 \<or> m' = 11 then 30 else 31)
                     in (y, m', n - (preceding - dim) + 1))
               else (y, m, n - preceding + 1)))"

function show_nat :: "nat \<Rightarrow> string" where
  "show_nat n =
     (if n < 10 then [char_of (48 + n)]
      else show_nat (n div 10) @ [char_of (48 + n mod 10)])"
  by pat_completeness auto
termination
  by (relation "measure id") auto

declare show_nat.simps [simp del]

text \<open>\<^verbatim>\<open>"%0wd" % n\<close> for a non-negative \<open>n\<close>.\<close>

definition pad :: "nat \<Rightarrow> int \<Rightarrow> string" where
  "pad w n = replicate (w - length (show_nat (nat n))) (CHR ''0'') @ show_nat (nat n)"

text \<open>
  \<^verbatim>\<open>datetime.isoformat()\<close> of a datetime in UTC: date, \<^verbatim>\<open>T\<close>, time, the microseconds
  when they are not zero, and the offset \<^verbatim>\<open>+00:00\<close>.
\<close>

definition iso_body :: "datetime \<Rightarrow> string" where
  "iso_body t =
     (let us = t mod 1000000; secs = t div 1000000;
          days = secs div 86400; sod = secs mod 86400;
          ymd = ord2ymd days
      in pad 4 (fst ymd) @ ''-'' @ pad 2 (fst (snd ymd)) @ ''-'' @ pad 2 (snd (snd ymd))
           @ ''T'' @ pad 2 (sod div 3600) @ '':'' @ pad 2 (sod mod 3600 div 60)
           @ '':'' @ pad 2 (sod mod 60)
           @ (if us \<noteq> 0 then ''.'' @ pad 6 us else []))"

definition isoformat :: "datetime \<Rightarrow> string" where
  "isoformat t = iso_body t @ ''+00:00''"

section \<open>The decimal module\<close>

text \<open>
  The default context of the decimal module, which the program never changes:
  28 digits of precision, rounding half to even, exponents from \<open>Emin\<close> to \<open>Emax\<close>,
  no clamping, and the traps InvalidOperation, DivisionByZero and Overflow.
\<close>

definition prec :: nat where
  "prec = 28"

definition Emax :: int where
  "Emax = 999999"

definition Emin :: int where
  "Emin = - 999999"

definition Etiny :: int where
  "Etiny = Emin - int prec + 1"

definition Etop :: int where
  "Etop = Emax - int prec + 1"

text \<open>The number of decimal digits of a coefficient, \<^verbatim>\<open>len(self._int)\<close>.\<close>

function ndigits :: "nat \<Rightarrow> nat" where
  "ndigits n = (if n < 10 then 1 else Suc (ndigits (n div 10)))"
  by pat_completeness auto
termination
  by (relation "measure id") auto

declare ndigits.simps [simp del]

definition lower :: "char \<Rightarrow> char" where
  "lower c =
     (if 65 \<le> (of_char c :: nat) \<and> (of_char c :: nat) \<le> 90 then char_of ((of_char c :: nat) + 32)
      else c)"

text \<open>
  The numeric strings of the constructor: digits with an optional point and at least
  one digit, and an optional exponent. The result is the coefficient and the exponent.
\<close>

definition parse_number :: "string \<Rightarrow> (nat \<times> int) option" where
  "parse_number s =
     (let ip = takeWhile is_digit s; r1 = dropWhile is_digit s;
          point = (r1 \<noteq> [] \<and> hd r1 = CHR ''.'');
          fp = (if point then takeWhile is_digit (tl r1) else []);
          r2 = (if point then dropWhile is_digit (tl r1) else r1);
          coeff = digits_value (ip @ fp)
      in if ip = [] \<and> fp = [] then None
         else if r2 = [] then Some (coeff, - int (length fp))
         else if hd r2 = CHR ''e'' \<or> hd r2 = CHR ''E''
         then (let se = split_sign (tl r2); ds = snd se
               in if ds \<noteq> [] \<and> list_all is_digit ds
                  then Some (coeff,
                         (if fst se then - int (digits_value ds) else int (digits_value ds))
                           - int (length fp))
                  else None)
         else None)"

text \<open>
  The constructor keeps every digit, whatever the context; the implementation refuses
  the exponents it cannot represent exactly, beyond \<open>max_emax\<close> and below \<open>min_etiny\<close>.
\<close>

definition max_emax :: int where
  "max_emax = 999999999999999999"

definition min_etiny :: int where
  "min_etiny = - 1999999999999999997"

definition representable :: "nat \<Rightarrow> int \<Rightarrow> bool" where
  "representable c e = (min_etiny \<le> e \<and> e + int (ndigits c) - 1 \<le> max_emax)"

text \<open>
  \<^verbatim>\<open>Decimal(value)\<close> for a string: surrounding whitespace is stripped and underscores
  are removed, then come an optional sign and a number, an infinity or a NaN, in any
  case of the letters.
\<close>

definition Decimal :: "string \<Rightarrow> error + decimal" where
  "Decimal v =
     (let s = filter (\<lambda>c. c \<noteq> CHR ''_'') (str_strip v);
          sb = split_sign s; sg = fst sb; b = snd sb; lb = map lower b
      in if lb = ''inf'' \<or> lb = ''infinity'' then Inr (Infinity sg)
         else if take 3 lb = ''nan'' \<and> list_all is_digit (drop 3 lb)
         then Inr (NaN sg (digits_value (drop 3 lb)))
         else if take 4 lb = ''snan'' \<and> list_all is_digit (drop 4 lb)
         then Inr (sNaN sg (digits_value (drop 4 lb)))
         else (case parse_number b of
                 None \<Rightarrow> Inl InvalidOperation
               | Some ce \<Rightarrow>
                   if representable (fst ce) (snd ce) then Inr (Finite sg (fst ce) (snd ce))
                   else Inl InvalidOperation))"

text \<open>
  \<^verbatim>\<open>Decimal._fix\<close> on a finite number: the result of an operation is rounded to the
  precision of the context, half to even; an exponent above \<open>Emax\<close> raises Overflow,
  which is trapped, and one below \<open>Etiny\<close> is brought up to \<open>Etiny\<close>.
\<close>

definition decimal_fix :: "bool \<Rightarrow> nat \<Rightarrow> int \<Rightarrow> error + decimal" where
  "decimal_fix sg c e =
     (if c = 0 then Inr (Finite sg 0 (min (max e Etiny) Emax))
      else
        (let exp_min0 = int (ndigits c) + e - int prec in
         if Etop < exp_min0 then Inl Overflow
         else
           (let exp_min = (if exp_min0 < Etiny then Etiny else exp_min0) in
            if e < exp_min
            then
              (let k = nat (exp_min - e);
                   q = c div 10 ^ k; r = c mod 10 ^ k;
                   up = (5 * 10 ^ (k - 1) < r \<or> (r = 5 * 10 ^ (k - 1) \<and> odd q));
                   coeff = (if up then q + 1 else q);
                   carry = (prec < ndigits coeff);
                   coeff' = (if carry then coeff div 10 else coeff);
                   exp_min' = (if carry then exp_min + 1 else exp_min)
               in if Etop < exp_min' then Inl Overflow else Inr (Finite sg coeff' exp_min'))
            else Inr (Finite sg c e))))"

text \<open>
  \<^verbatim>\<open>Decimal.__mul__\<close> with an int as the other operand: a signaling NaN raises
  InvalidOperation, a quiet NaN is returned with its payload cut to the precision, an
  infinity times zero raises, and a finite product is rounded by \<open>decimal_fix\<close>.
\<close>

definition decimal_mul :: "decimal \<Rightarrow> int \<Rightarrow> error + decimal" where
  "decimal_mul d k =
     (case d of
        sNaN sg p \<Rightarrow> Inl InvalidOperation
      | NaN sg p \<Rightarrow> Inr (NaN sg (p mod 10 ^ prec))
      | Infinity sg \<Rightarrow> if k = 0 then Inl InvalidOperation else Inr (Infinity (sg \<noteq> (k < 0)))
      | Finite sg c e \<Rightarrow> decimal_fix (sg \<noteq> (k < 0)) (c * nat \<bar>k\<bar>) e)"

text \<open>The number a finite decimal denotes.\<close>

definition decimal_value :: "decimal \<Rightarrow> rat" where
  "decimal_value d =
     (case d of
        Finite sg c e \<Rightarrow>
          (if sg then - 1 else 1) * of_nat c
            * (if 0 \<le> e then 10 ^ nat e else 1 / 10 ^ nat (- e))
      | _ \<Rightarrow> 0)"

section \<open>The json module\<close>

text \<open>
  The values the program serializes. A float is held as the text that \<^verbatim>\<open>json.dumps\<close>
  writes for it.
\<close>

datatype json =
    JString string
  | JFloat string
  | JList "json list"
  | JDict "(string \<times> json) list"

definition hex_digit :: "nat \<Rightarrow> char" where
  "hex_digit n = ''0123456789abcdef'' ! n"

text \<open>
  The escapes of \<^verbatim>\<open>ensure_ascii=True\<close>: the quote, the backslash and every character
  outside the printable ASCII range.
\<close>

definition escape_char :: "char \<Rightarrow> string" where
  "escape_char c =
     (if c = CHR 0x22 then [CHR 0x5C, CHR 0x22]
      else if c = CHR 0x5C then [CHR 0x5C, CHR 0x5C]
      else if c = CHR 0x0A then [CHR 0x5C, CHR ''n'']
      else if c = CHR 0x0D then [CHR 0x5C, CHR ''r'']
      else if c = CHR 0x09 then [CHR 0x5C, CHR ''t'']
      else if c = CHR 0x08 then [CHR 0x5C, CHR ''b'']
      else if c = CHR 0x0C then [CHR 0x5C, CHR ''f'']
      else if 32 \<le> (of_char c :: nat) \<and> (of_char c :: nat) \<le> 126 then [c]
      else [CHR 0x5C, CHR ''u'', CHR ''0'', CHR ''0'',
            hex_digit ((of_char c :: nat) div 16), hex_digit ((of_char c :: nat) mod 16)])"

definition encode_string :: "string \<Rightarrow> string" where
  "encode_string s = CHR 0x22 # concat (map escape_char s) @ [CHR 0x22]"

definition newline_indent :: "nat \<Rightarrow> string" where
  "newline_indent level = CHR 0x0A # replicate (2 * level) (CHR '' '')"

fun join :: "string \<Rightarrow> string list \<Rightarrow> string" where
  "join sep [] = []"
| "join sep [x] = x"
| "join sep (x # y # ys) = x @ sep @ join sep (y # ys)"

text \<open>\<^verbatim>\<open>json.dumps(value, indent=2)\<close>, at a nesting level.\<close>

fun encode :: "nat \<Rightarrow> json \<Rightarrow> string" where
  "encode level (JString s) = encode_string s"
| "encode level (JFloat f) = f"
| "encode level (JList xs) =
     (if xs = [] then ''[]''
      else ''['' @ newline_indent (Suc level)
             @ join ('','' @ newline_indent (Suc level)) (map (encode (Suc level)) xs)
             @ newline_indent level @ '']'')"
| "encode level (JDict kvs) =
     (if kvs = [] then ''{}''
      else ''{'' @ newline_indent (Suc level)
             @ join ('','' @ newline_indent (Suc level))
                 (map (\<lambda>kv. encode_string (fst kv) @ '': '' @ encode (Suc level) (snd kv)) kvs)
             @ newline_indent level @ ''}'')"

definition dumps :: "json \<Rightarrow> string" where
  "dumps v = encode 0 v"

section \<open>The ledger and its aggregation step\<close>

text \<open>
  First loop of \<^verbatim>\<open>set_default_category_created_ats\<close>: the dictionary
  \<^verbatim>\<open>category_earliest_transactions\<close>, keyed by the category name. The lookup that
  raises \<^verbatim>\<open>KeyError\<close> is the \<open>None\<close> branch, which the handler turns into an
  insertion.
\<close>

fun earliest_loop ::
  "heap \<Rightarrow> Transaction list \<Rightarrow> (string \<rightharpoonup> datetime) \<Rightarrow> (string \<rightharpoonup> datetime)" where
  "earliest_loop h [] m = m"
| "earliest_loop h (t # ts) m =
     (let n = c_name (h (t_category t)) in
      case m n of
        None \<Rightarrow> earliest_loop h ts (m(n \<mapsto> t_created_at t))
      | Some e \<Rightarrow>
          if t_created_at t < e then earliest_loop h ts (m(n \<mapsto> t_created_at t))
          else earliest_loop h ts m)"

text \<open>
  Second loop: assignment through the setter of \<^verbatim>\<open>Category.created_at\<close>. The lookup
  is outside any handler here, so a missing key is an error of the operation.
\<close>

fun assign_loop ::
  "(string \<rightharpoonup> datetime) \<Rightarrow> Transaction list \<Rightarrow> heap \<Rightarrow> error + heap" where
  "assign_loop m [] h = Inr h"
| "assign_loop m (t # ts) h =
     (case m (c_name (h (t_category t))) of
        None \<Rightarrow> Inl KeyError
      | Some e \<Rightarrow>
          assign_loop m ts (h(t_category t := (h (t_category t))\<lparr>c_created_at := Some e\<rparr>)))"

definition set_default_category_created_ats ::
  "Transaction list \<Rightarrow> heap \<Rightarrow> error + heap" where
  "set_default_category_created_ats txs h =
     assign_loop (earliest_loop h txs Map.empty) txs h"

text \<open>The timestamps of the transactions whose category bears the name \<open>n\<close>.\<close>

definition stamps_of :: "heap \<Rightarrow> Transaction list \<Rightarrow> string \<Rightarrow> datetime set" where
  "stamps_of h txs n = t_created_at ` {u \<in> set txs. c_name (h (t_category u)) = n}"

section \<open>Serialization\<close>

text \<open>
  The loop of \<^verbatim>\<open>__repr__\<close> over \<^verbatim>\<open>self.categories\<close>, a set of instances that Python
  iterates in an order of its own; \<open>cs\<close> is that order. Each dictionary is the pair
  of its name and of its timestamp in ISO format.
\<close>

fun categories_loop :: "heap \<Rightarrow> ref list \<Rightarrow> error + (string \<times> string) list" where
  "categories_loop h [] = Inr []"
| "categories_loop h (c # cs) =
     (case c_created_at (h c) of
        None \<Rightarrow> Inl AssertionError
      | Some t \<Rightarrow>
          bind (categories_loop h cs) (\<lambda>ds. Inr ((c_name (h c), isoformat t) # ds)))"

definition category_dict :: "string \<times> string \<Rightarrow> json" where
  "category_dict d = JDict [(''name'', JString (fst d)), (''created_at'', JString (snd d))]"

text \<open>
  \<^verbatim>\<open>float(amount)\<close> raises for a signaling NaN. Binary floating point is not
  modelled: \<open>float_repr\<close> is the text that \<^verbatim>\<open>json.dumps\<close> writes for the float
  nearest to a decimal.
\<close>

definition py_float :: "(decimal \<Rightarrow> string) \<Rightarrow> decimal \<Rightarrow> error + json" where
  "py_float float_repr d =
     (case d of sNaN sg p \<Rightarrow> Inl ValueError | _ \<Rightarrow> Inr (JFloat (float_repr d)))"

text \<open>The loop over the transactions; the category is the first dictionary of that name.\<close>

fun transactions_loop ::
  "(decimal \<Rightarrow> string) \<Rightarrow> heap \<Rightarrow> (string \<times> string) list \<Rightarrow> Transaction list
     \<Rightarrow> error + json list" where
  "transactions_loop float_repr h cats [] = Inr []"
| "transactions_loop float_repr h cats (t # ts) =
     (case filter (\<lambda>d. c_name (h (t_category t)) = fst d) cats of
        [] \<Rightarrow> Inl IndexError
      | d # _ \<Rightarrow>
          bind (py_float float_repr (t_amount t)) (\<lambda>a.
          bind (transactions_loop float_repr h cats ts) (\<lambda>js.
            Inr (JDict [(''category'', category_dict d),
                        (''description'', JString (t_notes t)),
                        (''amount'', a),
                        (''created_at'', JString (isoformat (t_created_at t)))] # js))))"

definition top_level :: "json list \<Rightarrow> (string \<times> string) list \<Rightarrow> json" where
  "top_level tds cats =
     JDict [(''transactions'', JList tds), (''categories'', JList (map category_dict cats))]"

text \<open>
  \<^verbatim>\<open>Transactions.__repr__\<close>, which \<^verbatim>\<open>to_json\<close> returns: the text, and the store that
  the aggregation has updated.
\<close>

definition repr ::
  "(decimal \<Rightarrow> string) \<Rightarrow> ref list \<Rightarrow> Transaction list \<Rightarrow> heap \<Rightarrow> error + (string \<times> heap)" where
  "repr float_repr cs txs h =
     bind (set_default_category_created_ats txs h) (\<lambda>h'.
     bind (categories_loop h' cs) (\<lambda>cats.
     bind (transactions_loop float_repr h' cats txs) (\<lambda>tds.
       Inr (str_replace ''+00:00'' ''Z'' (dumps (top_level tds cats)), h'))))"

definition to_json ::
  "(decimal \<Rightarrow> string) \<Rightarrow> ref list \<Rightarrow> Transaction list \<Rightarrow> heap \<Rightarrow> error + (string \<times> heap)" where
  "to_json float_repr cs txs h = repr float_repr cs txs h"

section \<open>Parsing the expense log\<close>

text \<open>Lines 153 to 161: the local datetime and its conversion to UTC.\<close>

definition transaction_datetime ::
  "(civil \<Rightarrow> int) \<Rightarrow> string \<Rightarrow> string \<Rightarrow> string \<Rightarrow> string \<Rightarrow> string \<Rightarrow> string
     \<Rightarrow> error + datetime" where
  "transaction_datetime tz dd mm yy hh mi ss =
     bind (py_int yy) (\<lambda>y.
     bind (py_int mm) (\<lambda>m.
     bind (py_int dd) (\<lambda>d.
     bind (py_int hh) (\<lambda>h.
     bind (py_int mi) (\<lambda>n.
     bind (py_int ss) (\<lambda>s.
     bind (datetime_new (2000 + y) m d h n s) (\<lambda>local.
       astimezone tz local)))))))"

text \<open>Lines 164 to 168: the amount.\<close>

definition parse_amount :: "string \<Rightarrow> error + decimal" where
  "parse_amount field =
     (case str_split ''$'' field of
        [negative_symbol, amount_string] \<Rightarrow>
          (let is_negative = (negative_symbol = ''-'');
               amount_string' = str_replace '','' [] amount_string;
               negative_multiplier = (if is_negative then - 1 else 1)
           in bind (Decimal amount_string') (\<lambda>d. decimal_mul d negative_multiplier))
      | _ \<Rightarrow> Inl ValueError)"

text \<open>
  The body of the \<^verbatim>\<open>try\<close> statement for one row, in the order of the source, up to
  the values the transaction is built from. The \<^verbatim>\<open>Category\<close> of line 170 is allocated
  by the loop below when the whole row has been decoded: the instance of a row that
  fails at line 171 is unreachable.
\<close>

definition parse_row ::
  "(civil \<Rightarrow> int) \<Rightarrow> string list \<Rightarrow> error + (datetime \<times> decimal \<times> string \<times> string)" where
  "parse_row tz row =
     bind (index row 0) (\<lambda>date.
       case str_split ''/'' date of
         [dd, mm, yy] \<Rightarrow>
           bind (index row 1) (\<lambda>time.
             case str_split '':'' time of
               [hh, mi] \<Rightarrow>
                 bind (transaction_datetime tz dd mm yy hh mi ''00'') (\<lambda>ts.
                 bind (index row 2) (\<lambda>field.
                 bind (parse_amount field) (\<lambda>amount.
                 bind (index row 3) (\<lambda>category_string.
                 bind (index row 4) (\<lambda>notes.
                   Inr (ts, amount, category_string, notes))))))
             | _ \<Rightarrow> Inl ValueError)
       | _ \<Rightarrow> Inl ValueError)"

text \<open>
  The state of \<^verbatim>\<open>parse_expense_log\<close>: the list of the ledger, the store with the next
  free reference, and what has been printed, one pair of the exception and the row
  index for each message.
\<close>

record pstate =
  transactions :: "Transaction list"
  store :: heap
  next_ref :: ref
  printed :: "(error \<times> nat) list"

definition add_row :: "datetime \<times> decimal \<times> string \<times> string \<Rightarrow> pstate \<Rightarrow> pstate" where
  "add_row v s =
     s\<lparr>transactions := transactions s @
          [\<lparr>t_created_at = fst v, t_amount = fst (snd v), t_category = next_ref s,
            t_notes = snd (snd (snd v))\<rparr>],
       store := (store s)(next_ref s := \<lparr>c_name = fst (snd (snd v)), c_created_at = None\<rparr>),
       next_ref := Suc (next_ref s)\<rparr>"

text \<open>
  The rows come from the iteration over \<^verbatim>\<open>csv.reader(file)\<close> of line 141, a statement
  that is outside the \<^verbatim>\<open>try\<close> statement of line 144. The csv module is not modelled:
  an expense log is given by what this iteration produces for the records of the file,
  one after the other, the list of the fields of a record, or the exception that the
  reader raises there (\<^verbatim>\<open>_csv.Error\<close> for a field of more than 131072 characters,
  \<^verbatim>\<open>UnicodeDecodeError\<close> for bytes that are not text in the encoding of the file).
  Such an exception leaves \<^verbatim>\<open>parse_expense_log\<close>: the records after it are never
  read, and the caller receives the exception and no ledger. \<open>Missing\<close> is a path that
  is not the path of a regular file, on which the assertion of line 138 fails. The
  \<^verbatim>\<open>print\<close> of the handler is taken to succeed.
\<close>

datatype expense_log =
    Missing
  | Records "(error + string list) list"

text \<open>
  The loop of lines 141 to 176 over the enumerated records. It ends with the state,
  or with the exception of the reader and what has been printed before it.
\<close>

fun parse_loop ::
  "(civil \<Rightarrow> int) \<Rightarrow> (nat \<times> (error + string list)) list \<Rightarrow> pstate
     \<Rightarrow> error \<times> (error \<times> nat) list + pstate" where
  "parse_loop tz [] s = Inr s"
| "parse_loop tz ((i, Inl e) # rest) s = Inl (e, printed s)"
| "parse_loop tz ((i, Inr row) # rest) s =
     (if i = 0 then parse_loop tz rest s
      else
        (case parse_row tz row of
           Inl e \<Rightarrow> parse_loop tz rest (s\<lparr>printed := printed s @ [(e, i)]\<rparr>)
         | Inr v \<Rightarrow> parse_loop tz rest (add_row v s)))"

text \<open>
  \<^verbatim>\<open>parse_expense_log\<close>, from a store \<open>h\<close> in which the references from \<open>r\<close> on are
  free: the state that holds the ledger it returns, or the exception that leaves it
  with what it has printed.
\<close>

definition parse_expense_log ::
  "(civil \<Rightarrow> int) \<Rightarrow> expense_log \<Rightarrow> heap \<Rightarrow> ref \<Rightarrow> error \<times> (error \<times> nat) list + pstate" where
  "parse_expense_log tz file h r =
     (case file of
        Missing \<Rightarrow> Inl (AssertionError, [])
      | Records items \<Rightarrow>
          parse_loop tz (enumerate 0 items)
            \<lparr>transactions = [], store = h, next_ref = r, printed = []\<rparr>)"

section \<open>Aggregation: proofs\<close>

lemma stamps_of_Nil: "stamps_of h [] n = {}"
  by (simp add: stamps_of_def)

lemma stamps_of_Cons:
  "stamps_of h (t # ts) n =
     (if c_name (h (t_category t)) = n then insert (t_created_at t) (stamps_of h ts n)
      else stamps_of h ts n)"
  by (auto simp: stamps_of_def)

lemma finite_stamps_of: "finite (stamps_of h txs n)"
  by (simp add: stamps_of_def)

text \<open>
  What the dictionary holds after the first loop, for any starting dictionary: the
  minimum of the old entry and of the timestamps seen under that name.
\<close>

definition merged :: "datetime option \<Rightarrow> datetime set \<Rightarrow> datetime option" where
  "merged old S =
     (case old of
        None \<Rightarrow> (if S = {} then None else Some (Min S))
      | Some e \<Rightarrow> Some (Min (insert e S)))"

lemma merged_step_None:
  "finite S \<Longrightarrow> merged None (insert x S) = merged (Some x) S"
  by (simp add: merged_def)

lemma merged_step_less:
  assumes "finite S" "x < e"
  shows "merged (Some e) (insert x S) = merged (Some x) S"
proof -
  have "Min (insert x S) \<le> x"
    using assms by simp
  with assms have "min e (Min (insert x S)) = Min (insert x S)"
    by (intro min_absorb2) linarith
  moreover have "Min (insert e (insert x S)) = min e (Min (insert x S))"
    using assms by (intro Min_insert) simp_all
  ultimately show ?thesis
    by (simp add: merged_def)
qed

lemma merged_step_ge:
  assumes "finite S" "\<not> x < e"
  shows "merged (Some e) (insert x S) = merged (Some e) S"
proof -
  have "Min (insert e S) \<le> e"
    using assms by simp
  with assms have "min x (Min (insert e S)) = Min (insert e S)"
    by (intro min_absorb2) linarith
  moreover have "Min (insert x (insert e S)) = min x (Min (insert e S))"
    using assms by (intro Min_insert) simp_all
  ultimately show ?thesis
    by (simp add: merged_def insert_commute)
qed

lemma earliest_loop_lookup:
  "earliest_loop h ts m n = merged (m n) (stamps_of h ts n)"
proof (induction ts arbitrary: m)
  case Nil
  show ?case by (simp add: stamps_of_Nil merged_def split: option.splits)
next
  case (Cons t ts)
  let ?k = "c_name (h (t_category t))"
  let ?x = "t_created_at t"
  note fin = finite_stamps_of [of h ts n]
  show ?case
  proof (cases "m ?k")
    case None
    then have "earliest_loop h (t # ts) m n = merged ((m(?k \<mapsto> ?x)) n) (stamps_of h ts n)"
      by (simp add: Cons.IH)
    also have "\<dots> = merged (m n) (stamps_of h (t # ts) n)"
      using None fin by (auto simp: stamps_of_Cons merged_step_None)
    finally show ?thesis .
  next
    case (Some e)
    show ?thesis
    proof (cases "?x < e")
      case True
      with Some have "earliest_loop h (t # ts) m n
          = merged ((m(?k \<mapsto> ?x)) n) (stamps_of h ts n)"
        by (simp add: Cons.IH)
      also have "\<dots> = merged (m n) (stamps_of h (t # ts) n)"
        using Some True fin by (auto simp: stamps_of_Cons merged_step_less)
      finally show ?thesis .
    next
      case False
      with Some have "earliest_loop h (t # ts) m n = merged (m n) (stamps_of h ts n)"
        by (simp add: Cons.IH)
      also have "\<dots> = merged (m n) (stamps_of h (t # ts) n)"
        using Some False fin by (auto simp: stamps_of_Cons merged_step_ge)
      finally show ?thesis .
    qed
  qed
qed

lemma earliest_loop_empty:
  "earliest_loop h ts Map.empty n =
     (if stamps_of h ts n = {} then None else Some (Min (stamps_of h ts n)))"
  by (simp add: earliest_loop_lookup merged_def)

text \<open>
  The second loop, for any dictionary that has an entry for the name of every category
  of the transactions: it succeeds, keeps every name, and sets the timestamp of exactly
  the categories the transactions refer to.
\<close>

definition assigned :: "(string \<rightharpoonup> datetime) \<Rightarrow> ref set \<Rightarrow> heap \<Rightarrow> heap" where
  "assigned m R h =
     (\<lambda>r. if r \<in> R then (h r)\<lparr>c_created_at := m (c_name (h r))\<rparr> else h r)"

lemma assigned_step:
  assumes "m (c_name (h a)) = Some e"
  shows "assigned m R (h(a := (h a)\<lparr>c_created_at := Some e\<rparr>)) = assigned m (insert a R) h"
proof (rule ext)
  fix r
  show "assigned m R (h(a := (h a)\<lparr>c_created_at := Some e\<rparr>)) r = assigned m (insert a R) h r"
  proof (cases "r = a")
    case True
    with assms show ?thesis by (simp add: assigned_def)
  next
    case False
    then show ?thesis by (simp add: assigned_def)
  qed
qed

lemma assign_loop_result:
  assumes "\<forall>t \<in> set ts. m (c_name (h (t_category t))) \<noteq> None"
  shows "assign_loop m ts h = Inr (assigned m (t_category ` set ts) h)"
  using assms
proof (induction ts arbitrary: h)
  case Nil
  show ?case by (simp add: assigned_def)
next
  case (Cons t ts)
  from Cons.prems obtain e where e: "m (c_name (h (t_category t))) = Some e"
    by auto
  define h' where "h' = h(t_category t := (h (t_category t))\<lparr>c_created_at := Some e\<rparr>)"
  have names: "c_name (h' r) = c_name (h r)" for r
    by (simp add: h'_def)
  have "\<forall>u \<in> set ts. m (c_name (h' (t_category u))) \<noteq> None"
    using Cons.prems by (simp add: names)
  then have "assign_loop m ts h' = Inr (assigned m (t_category ` set ts) h')"
    by (rule Cons.IH)
  moreover have "assigned m (t_category ` set ts) h'
      = assigned m (t_category ` set (t # ts)) h"
    unfolding h'_def using e by (simp add: assigned_step [of m h "t_category t" e])
  moreover have "assign_loop m (t # ts) h = assign_loop m ts h'"
    using e by (simp add: h'_def)
  ultimately show ?case
    by simp
qed

lemma earliest_loop_defined:
  "t \<in> set txs \<Longrightarrow> earliest_loop h txs Map.empty (c_name (h (t_category t))) \<noteq> None"
  by (auto simp: earliest_loop_empty stamps_of_def)

lemma set_default_result:
  "set_default_category_created_ats txs h =
     Inr (assigned (earliest_loop h txs Map.empty) (t_category ` set txs) h)"
  unfolding set_default_category_created_ats_def
  by (rule assign_loop_result) (simp add: earliest_loop_defined)

lemma assigned_name: "c_name (assigned m R h r) = c_name (h r)"
  by (simp add: assigned_def)

lemma stamps_of_assigned: "stamps_of (assigned m R h) txs n = stamps_of h txs n"
  by (simp add: stamps_of_def assigned_name)

lemma earliest_loop_assigned:
  "earliest_loop (assigned m R h) txs Map.empty = earliest_loop h txs Map.empty"
  by (rule ext) (simp add: earliest_loop_empty stamps_of_assigned)

lemma assigned_idem: "assigned m R (assigned m R h) = assigned m R h"
  by (auto simp: assigned_def fun_eq_iff)

section \<open>Aggregation: the claims\<close>

text \<open>
  Claim C1. After \<^verbatim>\<open>set_default_category_created_ats\<close>, which always succeeds, the
  category instance of every transaction of the ledger carries as \<^verbatim>\<open>created_at\<close>
  the minimum of the timestamps of all transactions of the ledger whose category has
  the same name; the names themselves are untouched.
\<close>

theorem set_default_assigns_minimum:
  assumes "t \<in> set txs"
  shows "\<exists>h'. set_default_category_created_ats txs h = Inr h'
           \<and> (\<forall>r. c_name (h' r) = c_name (h r))
           \<and> c_created_at (h' (t_category t))
               = Some (Min (stamps_of h txs (c_name (h (t_category t)))))"
proof -
  let ?m = "earliest_loop h txs Map.empty"
  let ?h' = "assigned ?m (t_category ` set txs) h"
  have run: "set_default_category_created_ats txs h = Inr ?h'"
    by (rule set_default_result)
  have names: "\<forall>r. c_name (?h' r) = c_name (h r)"
    by (simp add: assigned_name)
  have "t_created_at t \<in> stamps_of h txs (c_name (h (t_category t)))"
    using assms by (auto simp: stamps_of_def)
  then have nonempty: "stamps_of h txs (c_name (h (t_category t))) \<noteq> {}"
    by blast
  have "c_created_at (?h' (t_category t)) = ?m (c_name (h (t_category t)))"
    using assms by (simp add: assigned_def)
  also have "\<dots> = Some (Min (stamps_of h txs (c_name (h (t_category t)))))"
    using nonempty by (simp add: earliest_loop_empty)
  finally show ?thesis
    using run names by blast
qed

text \<open>
  The instance of the specification: two transactions, each with its own category
  instance named Food, at the timestamps 100 < 200 (the later one first in the ledger);
  both instances end with the timestamp 100.
\<close>

theorem set_default_assigns_minimum_witness:
  "\<exists>h'. set_default_category_created_ats
          [\<lparr>t_created_at = 200, t_amount = Finite False 5 0, t_category = 0, t_notes = ''late''\<rparr>,
           \<lparr>t_created_at = 100, t_amount = Finite False 5 0, t_category = 1, t_notes = ''early''\<rparr>]
          (\<lambda>r. \<lparr>c_name = ''Food'', c_created_at = None\<rparr>) = Inr h'
        \<and> c_created_at (h' 0) = Some 100 \<and> c_created_at (h' 1) = Some 100"
proof -
  let ?t1 = "\<lparr>t_created_at = 200, t_amount = Finite False 5 0, t_category = 0, t_notes = ''late''\<rparr>"
  let ?t2 = "\<lparr>t_created_at = 100, t_amount = Finite False 5 0, t_category = 1, t_notes = ''early''\<rparr>"
  let ?h = "\<lambda>r::ref. \<lparr>c_name = ''Food'', c_created_at = None\<rparr>"
  have "?t1 \<in> set [?t1, ?t2]" and "?t2 \<in> set [?t1, ?t2]"
    by simp_all
  from set_default_assigns_minimum [OF this(1), of ?h]
    set_default_assigns_minimum [OF this(2), of ?h]
  show ?thesis
    by (auto simp: stamps_of_Cons stamps_of_Nil)
qed

text \<open>
  Claim C6. Running the aggregation a second time, on the store the first run left,
  succeeds and leaves that store as it is: every \<^verbatim>\<open>created_at\<close> keeps the value of
  the first run.
\<close>

theorem set_default_idempotent:
  "\<exists>h'. set_default_category_created_ats txs h = Inr h'
         \<and> set_default_category_created_ats txs h' = Inr h'"
proof -
  let ?m = "earliest_loop h txs Map.empty"
  let ?R = "t_category ` set txs"
  have "set_default_category_created_ats txs (assigned ?m ?R h)
      = Inr (assigned ?m ?R (assigned ?m ?R h))"
    by (simp add: set_default_result earliest_loop_assigned)
  then show ?thesis
    by (simp add: set_default_result assigned_idem)
qed

section \<open>Parsing: the loop\<close>

text \<open>
  A row is structurally valid when every step of the body of the \<^verbatim>\<open>try\<close> statement
  succeeds on it. \<open>successes\<close> lists what the valid rows decode to, in order, and
  \<open>failures\<close> the exception of every other row with its index.
\<close>

definition row_ok :: "(civil \<Rightarrow> int) \<Rightarrow> string list \<Rightarrow> bool" where
  "row_ok tz row = (\<not> isl (parse_row tz row))"

definition successes ::
  "(civil \<Rightarrow> int) \<Rightarrow> string list list \<Rightarrow> (datetime \<times> decimal \<times> string \<times> string) list" where
  "successes tz rows =
     concat (map (\<lambda>row. case parse_row tz row of Inl e \<Rightarrow> [] | Inr v \<Rightarrow> [v]) rows)"

definition failures ::
  "(civil \<Rightarrow> int) \<Rightarrow> nat \<Rightarrow> string list list \<Rightarrow> (error \<times> nat) list" where
  "failures tz n rows =
     concat (map (\<lambda>ir. case parse_row tz (snd ir) of Inl e \<Rightarrow> [(e, fst ir)] | Inr v \<Rightarrow> [])
               (enumerate n rows))"

text \<open>What a transaction of the ledger holds, its category read through the store.\<close>

definition row_values :: "heap \<Rightarrow> Transaction \<Rightarrow> datetime \<times> decimal \<times> string \<times> string" where
  "row_values h t = (t_created_at t, t_amount t, c_name (h (t_category t)), t_notes t)"

definition refs_below :: "pstate \<Rightarrow> bool" where
  "refs_below s = list_all (\<lambda>t. t_category t < next_ref s) (transactions s)"

lemma successes_Nil: "successes tz [] = []"
  by (simp add: successes_def)

lemma successes_Cons:
  "successes tz (row # rows) =
     (case parse_row tz row of Inl e \<Rightarrow> [] | Inr v \<Rightarrow> [v]) @ successes tz rows"
  by (simp add: successes_def)

lemma failures_Nil: "failures tz n [] = []"
  by (simp add: failures_def)

lemma failures_Cons:
  "failures tz n (row # rows) =
     (case parse_row tz row of Inl e \<Rightarrow> [(e, n)] | Inr v \<Rightarrow> []) @ failures tz (Suc n) rows"
  by (simp add: failures_def split: sum.splits)

lemma length_successes: "length (successes tz rows) = length (filter (row_ok tz) rows)"
  by (induction rows) (auto simp: successes_Nil successes_Cons row_ok_def split: sum.splits)

lemma row_values_add_row_old:
  assumes "refs_below s"
  shows "map (row_values (store (add_row v s))) (transactions s)
           = map (row_values (store s)) (transactions s)"
  using assms
  by (auto simp: refs_below_def list_all_iff add_row_def row_values_def)

lemma row_values_add_row:
  assumes "refs_below s"
  shows "map (row_values (store (add_row v s))) (transactions (add_row v s))
           = map (row_values (store s)) (transactions s) @ [v]"
proof -
  have "transactions (add_row v s) = transactions s @
      [\<lparr>t_created_at = fst v, t_amount = fst (snd v), t_category = next_ref s,
        t_notes = snd (snd (snd v))\<rparr>]"
    by (simp add: add_row_def)
  moreover have "row_values (store (add_row v s))
      \<lparr>t_created_at = fst v, t_amount = fst (snd v), t_category = next_ref s,
        t_notes = snd (snd (snd v))\<rparr> = v"
    by (simp add: add_row_def row_values_def)
  ultimately show ?thesis
    using row_values_add_row_old [OF assms, of v] by simp
qed

lemma refs_below_add_row: "refs_below s \<Longrightarrow> refs_below (add_row v s)"
  by (auto simp: refs_below_def list_all_iff add_row_def)

lemma printed_add_row: "printed (add_row v s) = printed s"
  by (simp add: add_row_def)

text \<open>
  The loop over records that the reader yields, from any state and any positive first
  index: it ends with a state; the ledger has grown by the transactions of the valid
  rows, in order, each with a category of its own, and the output by the messages of
  the other rows.
\<close>

lemma parse_loop_rows:
  assumes "0 < n" and "refs_below s"
  shows "\<exists>s'. parse_loop tz (enumerate n (map Inr rows)) s = Inr s'
       \<and> map (row_values (store s')) (transactions s')
           = map (row_values (store s)) (transactions s) @ successes tz rows
       \<and> printed s' = printed s @ failures tz n rows
       \<and> refs_below s'"
  using assms
proof (induction rows arbitrary: n s)
  case Nil
  then show ?case by (simp add: successes_Nil failures_Nil)
next
  case (Cons row rows)
  show ?case
  proof (cases "parse_row tz row")
    case (Inl e)
    let ?s1 = "s\<lparr>printed := printed s @ [(e, n)]\<rparr>"
    have step: "parse_loop tz (enumerate n (map Inr (row # rows))) s
        = parse_loop tz (enumerate (Suc n) (map Inr rows)) ?s1"
      using Inl Cons.prems(1) by simp
    have "refs_below ?s1"
      using Cons.prems(2) by (simp add: refs_below_def)
    from Cons.IH [OF _ this, of "Suc n"] show ?thesis
      unfolding step using Inl by (simp add: successes_Cons failures_Cons)
  next
    case (Inr v)
    have step: "parse_loop tz (enumerate n (map Inr (row # rows))) s
        = parse_loop tz (enumerate (Suc n) (map Inr rows)) (add_row v s)"
      using Inr Cons.prems(1) by simp
    have "refs_below (add_row v s)"
      using Cons.prems(2) by (rule refs_below_add_row)
    from Cons.IH [OF _ this, of "Suc n"] show ?thesis
      unfolding step using Inr
      by (simp add: successes_Cons failures_Cons printed_add_row
          row_values_add_row [OF Cons.prems(2)])
  qed
qed

text \<open>
  The loop over records of which the reader yields some and then raises: it ends with
  the exception of the reader, after the messages of the rows read before.
\<close>

lemma parse_loop_raise:
  assumes "0 < n"
  shows "parse_loop tz (enumerate n (map Inr rows @ Inl e # later)) s
           = Inl (e, printed s @ failures tz n rows)"
  using assms
proof (induction rows arbitrary: n s)
  case Nil
  show ?case by (simp add: failures_Nil)
next
  case (Cons row rows)
  show ?case
  proof (cases "parse_row tz row")
    case (Inl e')
    have "parse_loop tz (enumerate n (map Inr (row # rows) @ Inl e # later)) s
        = parse_loop tz (enumerate (Suc n) (map Inr rows @ Inl e # later))
            (s\<lparr>printed := printed s @ [(e', n)]\<rparr>)"
      using Inl Cons.prems by simp
    then show ?thesis
      using Cons.IH [of "Suc n"] Inl by (simp add: failures_Cons)
  next
    case (Inr v)
    have "parse_loop tz (enumerate n (map Inr (row # rows) @ Inl e # later)) s
        = parse_loop tz (enumerate (Suc n) (map Inr rows @ Inl e # later)) (add_row v s)"
      using Inr Cons.prems by simp
    then show ?thesis
      using Cons.IH [of "Suc n"] Inr by (simp add: failures_Cons printed_add_row)
  qed
qed

lemma parse_expense_log_Nil:
  "parse_expense_log tz (Records []) h r
     = Inr \<lparr>transactions = [], store = h, next_ref = r, printed = []\<rparr>"
  by (simp add: parse_expense_log_def)

lemma parse_expense_log_Cons:
  "parse_expense_log tz (Records (Inr first # items)) h r =
     parse_loop tz (enumerate 1 items)
       \<lparr>transactions = [], store = h, next_ref = r, printed = []\<rparr>"
  by (simp add: parse_expense_log_def)

lemma parse_expense_log_rows:
  "\<exists>s. parse_expense_log tz (Records (map Inr rows)) h r = Inr s
     \<and> map (row_values (store s)) (transactions s) = successes tz (tl rows)
     \<and> printed s = failures tz 1 (tl rows)"
proof (cases rows)
  case Nil
  then show ?thesis
    by (simp add: parse_expense_log_Nil successes_Nil failures_Nil)
next
  case (Cons first rest)
  have "refs_below \<lparr>transactions = [], store = h, next_ref = r, printed = []\<rparr>"
    by (simp add: refs_below_def)
  from parse_loop_rows [OF _ this, of 1 tz rest] show ?thesis
    using Cons by (auto simp: parse_expense_log_Cons)
qed

lemma parse_expense_log_raise:
  "parse_expense_log tz (Records (map Inr rows @ Inl e # later)) h r
     = Inl (e, failures tz 1 (tl rows))"
proof (cases rows)
  case Nil
  then show ?thesis
    by (simp add: parse_expense_log_def failures_Nil)
next
  case (Cons first rest)
  then show ?thesis
    using parse_loop_raise [of 1 tz rest e later]
    by (simp add: parse_expense_log_Cons)
qed

section \<open>Parsing: the claims\<close>

text \<open>
  Claim C2. For every file that the reader reads to its end, the ledger that
  \<^verbatim>\<open>parse_expense_log\<close> returns holds exactly what the structurally valid data rows
  decode to, in the order of the rows, so its length is the number of those rows; every
  other data row is skipped and leaves one message with its exception and its row
  index, and the rows after it are still parsed. For a file on which the reader raises
  after some rows, there is no ledger: the exception leaves \<^verbatim>\<open>parse_expense_log\<close>,
  after the messages of the rows read before, and whatever the file holds further on.
\<close>

theorem parse_expense_log_tolerant:
  "(\<exists>s. parse_expense_log tz (Records (map Inr rows)) h r = Inr s
      \<and> map (row_values (store s)) (transactions s) = successes tz (tl rows)
      \<and> length (transactions s) = length (filter (row_ok tz) (tl rows))
      \<and> printed s = failures tz 1 (tl rows))
   \<and> parse_expense_log tz (Records (map Inr rows @ Inl e # later)) h r
       = Inl (e, failures tz 1 (tl rows))"
proof -
  from parse_expense_log_rows [of tz rows h r] obtain s
    where s: "parse_expense_log tz (Records (map Inr rows)) h r = Inr s"
      "map (row_values (store s)) (transactions s) = successes tz (tl rows)"
      "printed s = failures tz 1 (tl rows)"
    by blast
  have "length (transactions s) = length (map (row_values (store s)) (transactions s))"
    by simp
  also have "\<dots> = length (successes tz (tl rows))"
    using s(2) by simp
  also have "\<dots> = length (filter (row_ok tz) (tl rows))"
    by (rule length_successes)
  finally show ?thesis
    using s parse_expense_log_raise [of tz rows e later h r] by blast
qed

text \<open>
  A file with a header, a valid row, a row whose amount is \<^verbatim>\<open>$abc\<close> and another valid
  row, in a zone seven hours behind UTC: two transactions, and one message for row 2.
\<close>

theorem parse_expense_log_tolerant_witness:
  "\<exists>s. parse_expense_log (\<lambda>c. - 25200)
          (Records
            [Inr [''Date'', ''Time'', ''Amount'', ''Category'', ''Notes''],
             Inr [''15/01/24'', ''14:30'', ''-$1,234.56'', ''Food'', ''lunch''],
             Inr [''16/01/24'', ''09:05'', ''$abc'', ''Food'', ''x''],
             Inr [''17/01/24'', ''09:05'', ''$5'', ''Fuel'', ''y'']])
          (\<lambda>r. \<lparr>c_name = [], c_created_at = None\<rparr>) 0 = Inr s
     \<and> map (row_values (store s)) (transactions s)
         = [(63840951000000000, Finite True 123456 (- 2), ''Food'', ''lunch''),
            (63841104300000000, Finite False 5 0, ''Fuel'', ''y'')]
     \<and> length (transactions s) = 2
     \<and> printed s = [(InvalidOperation, 2)]"
proof -
  have r1: "parse_row (\<lambda>c. - 25200) [''15/01/24'', ''14:30'', ''-$1,234.56'', ''Food'', ''lunch'']
      = Inr (63840951000000000, Finite True 123456 (- 2), ''Food'', ''lunch'')"
    by code_simp
  have r2: "parse_row (\<lambda>c. - 25200) [''16/01/24'', ''09:05'', ''$abc'', ''Food'', ''x'']
      = Inl InvalidOperation"
    by code_simp
  have r3: "parse_row (\<lambda>c. - 25200) [''17/01/24'', ''09:05'', ''$5'', ''Fuel'', ''y'']
      = Inr (63841104300000000, Finite False 5 0, ''Fuel'', ''y'')"
    by code_simp
  show ?thesis
    using parse_expense_log_tolerant [of "\<lambda>c. - 25200"
        "[[''Date'', ''Time'', ''Amount'', ''Category'', ''Notes''],
          [''15/01/24'', ''14:30'', ''-$1,234.56'', ''Food'', ''lunch''],
          [''16/01/24'', ''09:05'', ''$abc'', ''Food'', ''x''],
          [''17/01/24'', ''09:05'', ''$5'', ''Fuel'', ''y'']]"
        "\<lambda>r. \<lparr>c_name = [], c_created_at = None\<rparr>" 0, THEN conjunct1]
    by (simp add: successes_Cons successes_Nil failures_Cons failures_Nil row_ok_def r1 r2 r3
        numeral_2_eq_2)
qed

text \<open>
  A file with a header, a valid row, a record on which the reader raises (a field of
  131073 characters) and another valid row: the two valid rows give no ledger, the
  exception of the reader leaves \<^verbatim>\<open>parse_expense_log\<close>.
\<close>

theorem parse_expense_log_tolerant_counterexample:
  "row_ok (\<lambda>c. - 25200) [''15/01/24'', ''14:30'', ''-$1,234.56'', ''Food'', ''lunch'']
   \<and> row_ok (\<lambda>c. - 25200) [''17/01/24'', ''09:05'', ''$5'', ''Fuel'', ''y'']
   \<and> parse_expense_log (\<lambda>c. - 25200)
        (Records
          [Inr [''Date'', ''Time'', ''Amount'', ''Category'', ''Notes''],
           Inr [''15/01/24'', ''14:30'', ''-$1,234.56'', ''Food'', ''lunch''],
           Inl CsvError,
           Inr [''17/01/24'', ''09:05'', ''$5'', ''Fuel'', ''y'']])
        (\<lambda>r. \<lparr>c_name = [], c_created_at = None\<rparr>) 0 = Inl (CsvError, [])
   \<and> (\<nexists>s. parse_expense_log (\<lambda>c. - 25200)
        (Records
          [Inr [''Date'', ''Time'', ''Amount'', ''Category'', ''Notes''],
           Inr [''15/01/24'', ''14:30'', ''-$1,234.56'', ''Food'', ''lunch''],
           Inl CsvError,
           Inr [''17/01/24'', ''09:05'', ''$5'', ''Fuel'', ''y'']])
        (\<lambda>r. \<lparr>c_name = [], c_created_at = None\<rparr>) 0 = Inr s)"
proof -
  have r1: "parse_row (\<lambda>c. - 25200) [''15/01/24'', ''14:30'', ''-$1,234.56'', ''Food'', ''lunch'']
      = Inr (63840951000000000, Finite True 123456 (- 2), ''Food'', ''lunch'')"
    by code_simp
  have r3: "parse_row (\<lambda>c. - 25200) [''17/01/24'', ''09:05'', ''$5'', ''Fuel'', ''y'']
      = Inr (63841104300000000, Finite False 5 0, ''Fuel'', ''y'')"
    by code_simp
  show ?thesis
    by (simp add: parse_expense_log_def row_ok_def r1 r3 add_row_def)
qed

text \<open>
  Claim C8. The first row of the file is never parsed: the result does not depend on
  it, whatever the first row holds and whatever the reader does on the records after
  it; and when the reader reads the file to its end, the ledger and the messages are
  those of the rows after the first.
\<close>

theorem header_row_skipped:
  "parse_expense_log tz (Records (Inr first # items)) h r
     = parse_expense_log tz (Records (Inr [] # items)) h r
   \<and> (\<exists>s. parse_expense_log tz (Records (Inr first # map Inr rest)) h r = Inr s
        \<and> map (row_values (store s)) (transactions s) = successes tz rest
        \<and> printed s = failures tz 1 rest)"
  using parse_expense_log_rows [of tz "first # rest" h r]
  by (simp add: parse_expense_log_Cons)

text \<open>A file whose only row has the shape of a valid data row gives an empty ledger.\<close>

theorem header_row_skipped_witness:
  "row_ok (\<lambda>c. - 25200) [''15/01/24'', ''14:30'', ''-$1,234.56'', ''Food'', ''lunch'']
   \<and> (\<exists>s. parse_expense_log (\<lambda>c. - 25200)
          (Records [Inr [''15/01/24'', ''14:30'', ''-$1,234.56'', ''Food'', ''lunch'']])
          (\<lambda>r. \<lparr>c_name = [], c_created_at = None\<rparr>) 0 = Inr s
        \<and> transactions s = [] \<and> printed s = [])"
proof -
  have r1: "parse_row (\<lambda>c. - 25200) [''15/01/24'', ''14:30'', ''-$1,234.56'', ''Food'', ''lunch'']
      = Inr (63840951000000000, Finite True 123456 (- 2), ''Food'', ''lunch'')"
    by code_simp
  show ?thesis
    using header_row_skipped [of "\<lambda>c. - 25200"
        "[''15/01/24'', ''14:30'', ''-$1,234.56'', ''Food'', ''lunch'']" "[]"
        "\<lambda>r. \<lparr>c_name = [], c_created_at = None\<rparr>" 0 "[]", THEN conjunct2]
    by (simp add: successes_Nil failures_Nil row_ok_def r1)
qed

section \<open>Strings: facts\<close>

lemma str_split_nonempty: "str_split sep s \<noteq> []"
  by (induction sep s rule: str_split.induct) (auto split: list.splits)

lemma str_split_char_hit: "str_split [c] (c # xs) = [] # str_split [c] xs"
  by simp

lemma str_split_char_miss:
  "x \<noteq> c \<Longrightarrow> str_split [c] (x # xs) = (x # hd (str_split [c] xs)) # tl (str_split [c] xs)"
  using str_split_nonempty [of "[c]" xs] by (cases "str_split [c] xs") auto

lemma str_split_no_sep: "c \<notin> set s \<Longrightarrow> str_split [c] s = [s]"
  by (induction s) (auto simp: str_split_char_miss simp del: str_split.simps(2))

lemma str_split_first: "c \<notin> set a \<Longrightarrow> str_split [c] (a @ c # b) = a # str_split [c] b"
  by (induction a) (auto simp: str_split_char_miss str_split_char_hit simp del: str_split.simps(2))

lemma length_str_split: "length (str_split [c] s) = Suc (count_list s c)"
proof (induction s)
  case Nil
  show ?case by simp
next
  case (Cons x xs)
  show ?case
  proof (cases "x = c")
    case True
    then show ?thesis using Cons by (simp add: str_split_char_hit del: str_split.simps(2))
  next
    case False
    moreover have "length (tl (str_split [c] xs)) = count_list xs c"
      using Cons by simp
    ultimately show ?thesis
      by (simp add: str_split_char_miss del: str_split.simps(2))
  qed
qed

lemma str_split_two:
  "str_split [c] s = [p, q] \<longleftrightarrow> s = p @ c # q \<and> c \<notin> set p \<and> c \<notin> set q"
proof
  assume two: "str_split [c] s = [p, q]"
  then have "count_list s c = 1"
    using length_str_split [of c s] by simp
  then have "c \<in> set s"
    by (metis count_list_0_iff zero_neq_one)
  then obtain a b where s: "s = a @ c # b" and a: "c \<notin> set a"
    by (meson split_list_first)
  from \<open>count_list s c = 1\<close> s a have "count_list b c = 0"
    by (simp add: count_list_0_iff)
  then have b: "c \<notin> set b"
    by (simp add: count_list_0_iff)
  have "str_split [c] s = [a, b]"
    using s a b by (simp add: str_split_first str_split_no_sep del: str_split.simps(2))
  with two s a b show "s = p @ c # q \<and> c \<notin> set p \<and> c \<notin> set q"
    by simp
next
  assume "s = p @ c # q \<and> c \<notin> set p \<and> c \<notin> set q"
  then show "str_split [c] s = [p, q]"
    by (simp add: str_split_first str_split_no_sep del: str_split.simps(2))
qed

lemma replace_from_char_empty: "replace_from [c] [] s = filter (\<lambda>x. x \<noteq> c) s"
  by (induction s) auto

lemma str_replace_comma: "str_replace '','' [] s = filter (\<lambda>x. x \<noteq> CHR '','') s"
  by (simp add: str_replace_def replace_from_char_empty)

section \<open>Digits and decimals: facts\<close>

lemma digits_value_Nil: "digits_value [] = 0"
  by (simp add: digits_value_def)

lemma foldl_digits:
  "foldl (\<lambda>a c. 10 * a + digit_val c) acc b
     = acc * 10 ^ length b + foldl (\<lambda>a c. 10 * a + digit_val c) 0 b"
proof (induction b arbitrary: acc)
  case Nil
  show ?case by simp
next
  case (Cons x xs)
  show ?case
    using Cons [of "10 * acc + digit_val x"] Cons [of "digit_val x"]
    by (simp add: algebra_simps)
qed

lemma digits_value_append:
  "digits_value (a @ b) = digits_value a * 10 ^ length b + digits_value b"
  unfolding digits_value_def by (simp add: foldl_digits [of "foldl _ _ a"])

lemma ndigits_le: "0 < k \<Longrightarrow> n < 10 ^ k \<Longrightarrow> ndigits n \<le> k"
proof (induction k arbitrary: n)
  case 0
  then show ?case by simp
next
  case (Suc k)
  show ?case
  proof (cases "n < 10")
    case True
    then show ?thesis by (simp add: ndigits.simps)
  next
    case False
    then have k: "0 < k"
      using Suc.prems by (cases k) auto
    have "n div 10 < 10 ^ k"
      using Suc.prems by (simp add: less_mult_imp_div_less mult.commute)
    then have "ndigits (n div 10) \<le> k"
      using Suc.IH k by blast
    with False show ?thesis
      by (subst ndigits.simps) simp
  qed
qed

lemma ndigits_pos: "0 < ndigits n"
  by (subst ndigits.simps) simp

lemma digit_facts:
  assumes "is_digit c"
  shows "\<not> is_space c" "c \<noteq> CHR ''_''" "c \<noteq> CHR ''-''" "c \<noteq> CHR ''+''" "c \<noteq> CHR ''.''"
    "c \<noteq> CHR '',''" "c \<noteq> CHR ''$''" "lower c = c"
    "c \<noteq> CHR ''i''" "c \<noteq> CHR ''n''" "c \<noteq> CHR ''s''"
  using assms by (auto simp: is_digit_def is_space_def lower_def)

lemma not_digit_point: "\<not> is_digit (CHR ''.'')" "\<not> is_space (CHR ''.'')"
  by (simp_all add: is_digit_def is_space_def)

lemma str_strip_id:
  assumes "v \<noteq> []" "\<not> is_space (hd v)" "\<not> is_space (last v)"
  shows "str_strip v = v"
proof -
  have "dropWhile is_space v = v"
    using assms by (cases v) auto
  moreover have "dropWhile is_space (rev v) = rev v"
    using assms by (cases "rev v") (auto simp: hd_rev)
  ultimately show ?thesis
    by (simp add: str_strip_def)
qed

lemma parse_number_plain:
  assumes "list_all is_digit ip" "ip \<noteq> []" "list_all is_digit fp"
  shows "parse_number (ip @ CHR ''.'' # fp)
           = Some (digits_value (ip @ fp), - int (length fp))"
    and "parse_number ip = Some (digits_value ip, 0)"
proof -
  have ip: "\<forall>x\<in>set ip. is_digit x" and fp: "\<forall>x\<in>set fp. is_digit x"
    using assms by (simp_all add: list_all_iff)
  have t1: "takeWhile is_digit (ip @ CHR ''.'' # fp) = ip"
    using ip by (simp add: takeWhile_append2 not_digit_point)
  have d1: "dropWhile is_digit (ip @ CHR ''.'' # fp) = CHR ''.'' # fp"
    using ip by (simp add: dropWhile_append2 not_digit_point)
  have t2: "takeWhile is_digit fp = fp" and d2: "dropWhile is_digit fp = []"
    using fp by simp_all
  show "parse_number (ip @ CHR ''.'' # fp)
           = Some (digits_value (ip @ fp), - int (length fp))"
    using assms(2) by (simp add: parse_number_def t1 d1 t2 d2 Let_def)
  have t3: "takeWhile is_digit ip = ip" and d3: "dropWhile is_digit ip = []"
    using ip by simp_all
  show "parse_number ip = Some (digits_value ip, 0)"
    using assms(2) by (simp add: parse_number_def t3 d3 Let_def)
qed

text \<open>The constructor on digits with an optional fraction, \<open>tail\<close> being the fraction.\<close>

lemma Decimal_plain:
  assumes "list_all is_digit ip" "ip \<noteq> []" "list_all is_digit fp"
    and "v = ip \<and> fp = [] \<or> v = ip @ CHR ''.'' # fp"
    and "representable (digits_value (ip @ fp)) (- int (length fp))"
  shows "Decimal v = Inr (Finite False (digits_value (ip @ fp)) (- int (length fp)))"
proof -
  obtain c rest where v: "v = c # rest" and c: "is_digit c"
    using assms(1,2,4) by (cases ip) auto
  have all: "\<forall>x\<in>set v. is_digit x \<or> x = CHR ''.''"
    using assms(1,3,4) by (auto simp: list_all_iff)
  have "last v = CHR ''.'' \<or> is_digit (last v)"
    using all v by (metis last_in_set list.distinct(1))
  then have "\<not> is_space (last v)"
    using digit_facts(1) not_digit_point(2) by auto
  then have strip: "str_strip v = v"
    using v c by (simp add: str_strip_id digit_facts(1))
  have filt: "filter (\<lambda>x. x \<noteq> CHR ''_'') v = v"
    using all by (auto simp: filter_id_conv dest: digit_facts(2))
  have sign: "split_sign v = (False, v)"
    using v c by (simp add: split_sign_def digit_facts)
  have low: "map lower v = c # map lower rest"
    using v c by (simp add: digit_facts)
  have pn: "parse_number v = Some (digits_value (ip @ fp), - int (length fp))"
    using assms(1-4) parse_number_plain [of ip fp] by auto
  show ?thesis
    using c assms(5)
    by (simp add: Decimal_def strip filt sign low pn Let_def digit_facts)
qed

lemma decimal_fix_exact:
  assumes "c < 10 ^ 28" "Etiny \<le> e" "e \<le> Etop"
  shows "decimal_fix sg c e = Inr (Finite sg c e)"
proof (cases "c = 0")
  case True
  then show ?thesis
    using assms by (simp add: decimal_fix_def Etop_def Emax_def prec_def)
next
  case False
  have "ndigits c \<le> 28"
    using assms(1) by (simp add: ndigits_le)
  then have "int (ndigits c) + e - int prec \<le> e"
    by (simp add: prec_def)
  then show ?thesis
    using False assms by (simp add: decimal_fix_def Let_def)
qed

lemma decimal_mul_sign:
  assumes "c < 10 ^ 28" "Etiny \<le> e" "e \<le> Etop"
  shows "decimal_mul (Finite False c e) 1 = Inr (Finite False c e)"
    and "decimal_mul (Finite False c e) (- 1) = Inr (Finite True c e)"
  using assms by (simp_all add: decimal_mul_def decimal_fix_exact)

section \<open>The amount fields of the specification\<close>

text \<open>
  The signed-amount fields \<^verbatim>\<open><sign><currency-symbol><digits>[,digits]*[.digits]\<close>: the
  text after the currency symbol is a first group of digits, further groups each after
  a comma, and an optional fraction; \<open>amount_number\<close> is the number these digits
  write, the separators removed.
\<close>

definition fraction_digits :: "string option \<Rightarrow> string" where
  "fraction_digits fraction = (case fraction of None \<Rightarrow> [] | Some f \<Rightarrow> f)"

definition amount_text :: "string \<Rightarrow> string list \<Rightarrow> string option \<Rightarrow> string" where
  "amount_text g gs fraction =
     g @ concat (map (\<lambda>x. CHR '','' # x) gs)
       @ (case fraction of None \<Rightarrow> [] | Some f \<Rightarrow> CHR ''.'' # f)"

definition amount_number :: "string \<Rightarrow> string list \<Rightarrow> string option \<Rightarrow> rat" where
  "amount_number g gs fraction =
     of_nat (digits_value (concat (g # gs)))
       + of_nat (digits_value (fraction_digits fraction)) / 10 ^ length (fraction_digits fraction)"

lemma filter_comma_groups:
  assumes "list_all (list_all is_digit) gs"
  shows "filter (\<lambda>c. c \<noteq> CHR '','') (concat (map (\<lambda>x. CHR '','' # x) gs)) = concat gs"
  using assms
proof (induction gs)
  case Nil
  show ?case by simp
next
  case (Cons x xs)
  then have "filter (\<lambda>c. c \<noteq> CHR '','') x = x"
    by (auto simp: filter_id_conv list_all_iff dest: digit_facts(6))
  with Cons show ?case by simp
qed

lemma amount_text_stripped:
  assumes "list_all is_digit g" "list_all (list_all is_digit) gs"
    "list_all is_digit (fraction_digits fraction)"
  shows "str_replace '','' [] (amount_text g gs fraction)
           = concat (g # gs) @ (case fraction of None \<Rightarrow> [] | Some f \<Rightarrow> CHR ''.'' # f)"
proof -
  have g: "filter (\<lambda>c. c \<noteq> CHR '','') g = g"
    using assms(1) by (auto simp: filter_id_conv list_all_iff dest: digit_facts(6))
  have f: "filter (\<lambda>c. c \<noteq> CHR '','') (fraction_digits fraction) = fraction_digits fraction"
    using assms(3) by (auto simp: filter_id_conv list_all_iff dest: digit_facts(6))
  show ?thesis
    using g f filter_comma_groups [OF assms(2)]
    by (cases fraction) (simp_all add: str_replace_comma amount_text_def fraction_digits_def)
qed

lemma amount_text_no_dollar:
  assumes "list_all is_digit g" "list_all (list_all is_digit) gs"
    "list_all is_digit (fraction_digits fraction)"
  shows "CHR ''$'' \<notin> set (amount_text g gs fraction)"
  using assms
  by (cases fraction) (auto simp: amount_text_def fraction_digits_def list_all_iff dest: digit_facts(7))

lemma decimal_value_fraction:
  "decimal_value (Finite sg (digits_value (ip @ fp)) (- int (length fp)))
     = (if sg then - 1 else 1)
         * (of_nat (digits_value ip) + of_nat (digits_value fp) / 10 ^ length fp)"
  by (cases "fp = []") (simp_all add: decimal_value_def digits_value_append digits_value_Nil field_simps)

section \<open>The amount: the claims\<close>

text \<open>
  Claim C3, as amended. For every amount field of the form of the specification, with
  the sign \<^verbatim>\<open>-\<close> or none, whose digits write a coefficient below \<open>10 ^ 28\<close> (the
  precision of the decimal context) with at most 1000026 digits of fraction, the parsed
  amount is exactly the number the digits write, negated exactly when the sign is
  \<^verbatim>\<open>-\<close>.
\<close>

theorem parse_amount_exact:
  assumes "list_all is_digit g" and "g \<noteq> []" and "list_all (list_all is_digit) gs"
    and "list_all is_digit (fraction_digits fraction)"
    and "sig = [] \<or> sig = ''-''"
    and "digits_value (concat (g # gs) @ fraction_digits fraction) < 10 ^ 28"
    and "length (fraction_digits fraction) \<le> 1000026"
  shows "\<exists>d. parse_amount (sig @ ''$'' @ amount_text g gs fraction) = Inr d
           \<and> decimal_value d
               = (if sig = ''-'' then - 1 else 1) * amount_number g gs fraction"
proof -
  let ?ip = "concat (g # gs)" and ?fp = "fraction_digits fraction"
  let ?body = "amount_text g gs fraction"
  let ?c = "digits_value (?ip @ ?fp)" and ?e = "- int (length ?fp)"
  have split: "str_split ''$'' (sig @ ''$'' @ ?body) = [sig, ?body]"
    using assms(5) amount_text_no_dollar [OF assms(1,3,4)]
    by (auto simp: str_split_two)
  have ip: "list_all is_digit ?ip" "?ip \<noteq> []"
    using assms(1-3) by (auto simp: list_all_iff)
  have shape: "str_replace '','' [] ?body = ?ip \<and> ?fp = []
      \<or> str_replace '','' [] ?body = ?ip @ CHR ''.'' # ?fp"
    unfolding amount_text_stripped [OF assms(1,3,4)]
    by (cases fraction) (simp_all add: fraction_digits_def)
  have "ndigits ?c \<le> 28"
    using assms(6) by (simp add: ndigits_le)
  then have rep: "representable ?c ?e"
    using assms(7) by (simp add: representable_def min_etiny_def max_emax_def)
  have dec: "Decimal (str_replace '','' [] ?body) = Inr (Finite False ?c ?e)"
    using Decimal_plain [OF ip assms(4) shape rep] .
  have range: "Etiny \<le> ?e" "?e \<le> Etop"
    using assms(7) by (simp_all add: Etiny_def Etop_def Emin_def Emax_def prec_def)
  note mul = decimal_mul_sign [OF assms(6) range]
  have val: "decimal_value (Finite sg ?c ?e)
      = (if sg then - 1 else 1) * amount_number g gs fraction" for sg
    unfolding decimal_value_fraction by (simp add: amount_number_def)
  show ?thesis
  proof (cases "sig = ''-''")
    case True
    then have "parse_amount (sig @ ''$'' @ ?body) = Inr (Finite True ?c ?e)"
      using split dec mul(2) by (simp add: parse_amount_def bind_def)
    then show ?thesis
      using True val [of True] by simp
  next
    case False
    then have "parse_amount (sig @ ''$'' @ ?body) = Inr (Finite False ?c ?e)"
      using split dec mul(1) by (simp add: parse_amount_def bind_def)
    then show ?thesis
      using False val [of False] by simp
  qed
qed

text \<open>The example of the specification: \<^verbatim>\<open>-$1,234.56\<close> parses to exactly -1234.56.\<close>

theorem parse_amount_exact_witness:
  "\<exists>d. parse_amount ''-$1,234.56'' = Inr d \<and> decimal_value d = - (123456 / 100)"
proof -
  have "list_all is_digit ''1''" "''1'' \<noteq> []" "list_all (list_all is_digit) [''234'']"
    "list_all is_digit (fraction_digits (Some ''56''))" "''-'' = [] \<or> ''-'' = ''-''"
    "digits_value (concat (''1'' # [''234'']) @ fraction_digits (Some ''56'')) < 10 ^ 28"
    "length (fraction_digits (Some ''56'')) \<le> 1000026"
    by (simp_all add: is_digit_def fraction_digits_def digits_value_def digit_val_def)
  from parse_amount_exact [OF this] show ?thesis
    by (simp add: amount_text_def amount_number_def fraction_digits_def digits_value_def
        digit_val_def)
qed

text \<open>
  Without the bound the claim fails: the multiplication by the sign rounds its result
  to the 28 digits of the context, so a field of 29 digits parses to another number.
\<close>

theorem parse_amount_exact_counterexample:
  "list_all is_digit ''12345678901234567890123456789''
   \<and> (\<exists>d. parse_amount ([] @ ''$'' @ amount_text ''12345678901234567890123456789'' [] None)
            = Inr d
          \<and> decimal_value d = 12345678901234567890123456790
          \<and> amount_number ''12345678901234567890123456789'' [] None
              = 12345678901234567890123456789)"
proof -
  have p: "parse_amount ''$12345678901234567890123456789''
      = Inr (Finite False 1234567890123456789012345679 1)"
    by code_simp
  have v: "decimal_value (Finite False 1234567890123456789012345679 1)
      = 12345678901234567890123456790"
    by (simp add: decimal_value_def)
  have n: "amount_number ''12345678901234567890123456789'' [] None
      = 12345678901234567890123456789"
    by (simp add: amount_number_def fraction_digits_def digits_value_def digit_val_def)
  have d: "list_all is_digit ''12345678901234567890123456789''"
    by (simp add: is_digit_def)
  show ?thesis
    using p v n d by (simp add: amount_text_def)
qed

section \<open>The sign prefix of the amount\<close>

text \<open>
  The sign flag of a decimal; the decimals on which the multiplication by the sign
  raises: a signaling NaN, and a finite number that \<open>decimal_fix\<close> cannot round into
  the exponent range of the context.
\<close>

definition negative :: "decimal \<Rightarrow> bool" where
  "negative d = (case d of Finite sg c e \<Rightarrow> sg | Infinity sg \<Rightarrow> sg | NaN sg p \<Rightarrow> sg | sNaN sg p \<Rightarrow> sg)"

definition signaling :: "decimal \<Rightarrow> bool" where
  "signaling d = (case d of sNaN sg p \<Rightarrow> True | _ \<Rightarrow> False)"

definition overflows :: "decimal \<Rightarrow> bool" where
  "overflows d = (case d of Finite sg c e \<Rightarrow> decimal_fix False c e = Inl Overflow | _ \<Rightarrow> False)"

lemma decimal_fix_cases:
  "(\<exists>c' e'. decimal_fix sg c e = Inr (Finite sg c' e')) \<or> decimal_fix sg c e = Inl Overflow"
  by (simp add: decimal_fix_def Let_def)

lemma decimal_fix_sign:
  "decimal_fix sg c e = Inl Overflow \<longleftrightarrow> decimal_fix sg' c e = Inl Overflow"
  by (simp add: decimal_fix_def Let_def)

lemma decimal_mul_unit:
  assumes "k = 1 \<or> k = - 1"
  shows "(\<exists>a. decimal_mul d k = Inr a) \<longleftrightarrow> \<not> signaling d \<and> \<not> overflows d"
proof (cases d)
  case (Finite sg c e)
  have "nat \<bar>k\<bar> = 1"
    using assms by auto
  then have m: "decimal_mul d k = decimal_fix (sg \<noteq> (k < 0)) c e"
    using Finite by (simp add: decimal_mul_def)
  show ?thesis
    using decimal_fix_cases [of "sg \<noteq> (k < 0)" c e]
      decimal_fix_sign [of "sg \<noteq> (k < 0)" c e False]
    unfolding m by (auto simp: Finite signaling_def overflows_def)
next
  case (Infinity sg)
  then show ?thesis
    using assms by (auto simp: decimal_mul_def signaling_def overflows_def)
next
  case (NaN sg p)
  then show ?thesis
    by (simp add: decimal_mul_def signaling_def overflows_def)
next
  case (sNaN sg p)
  then show ?thesis
    by (simp add: decimal_mul_def signaling_def overflows_def)
qed

lemma decimal_mul_one_sign:
  assumes "decimal_mul d 1 = Inr a"
  shows "negative a = negative d"
proof (cases d)
  case (Finite sg c e)
  then have "decimal_fix sg c e = Inr a"
    using assms by (simp add: decimal_mul_def)
  then show ?thesis
    using decimal_fix_cases [of sg c e] Finite by (auto simp: negative_def)
qed (use assms in \<open>auto simp: decimal_mul_def negative_def\<close>)

lemma parse_amount_split:
  assumes "field = p @ ''$'' @ s" "CHR ''$'' \<notin> set p" "CHR ''$'' \<notin> set s"
  shows "parse_amount field
           = bind (Decimal (str_replace '','' [] s))
               (\<lambda>d. decimal_mul d (if p = ''-'' then - 1 else 1))"
proof -
  have "str_split ''$'' field = [p, s]"
    using assms by (simp add: str_split_two)
  then show ?thesis
    by (simp add: parse_amount_def Let_def)
qed

lemma parse_amount_no_split:
  assumes "count_list field (CHR ''$'') \<noteq> 1"
  shows "parse_amount field = Inl ValueError"
proof -
  have "length (str_split ''$'' field) \<noteq> 2"
    using assms by (simp add: length_str_split)
  then show ?thesis
    by (auto simp: parse_amount_def split: list.splits)
qed

lemma one_dollar:
  "count_list field (CHR ''$'') = 1
     \<longleftrightarrow> (\<exists>p s. field = p @ ''$'' @ s \<and> CHR ''$'' \<notin> set p \<and> CHR ''$'' \<notin> set s)"
proof -
  have "count_list field (CHR ''$'') = 1 \<longleftrightarrow> length (str_split ''$'' field) = 2"
    by (simp add: length_str_split)
  also have "\<dots> \<longleftrightarrow> (\<exists>p s. str_split ''$'' field = [p, s])"
    by (auto simp: length_Suc_conv numeral_2_eq_2)
  finally show ?thesis
    by (simp add: str_split_two)
qed

text \<open>
  Claim C10, as amended. A field is split when it holds exactly one \<^verbatim>\<open>$\<close>, and
  only then; any other field raises. For a split field whose text after the \<^verbatim>\<open>$\<close>,
  the commas removed, the constructor accepts as the decimal \<open>d\<close>: the amount is
  \<open>d\<close> times -1 when the prefix is \<^verbatim>\<open>-\<close> and \<open>d\<close> times 1 for any other prefix,
  which keeps the sign of \<open>d\<close>; the step raises exactly when \<open>d\<close> is a signaling NaN
  or overflows the context. When the constructor refuses the text, the step raises.
\<close>

theorem parse_amount_prefix:
  "(count_list field (CHR ''$'') \<noteq> 1 \<longrightarrow> parse_amount field = Inl ValueError)
   \<and> (count_list field (CHR ''$'') = 1
        \<longleftrightarrow> (\<exists>p s. field = p @ ''$'' @ s \<and> CHR ''$'' \<notin> set p \<and> CHR ''$'' \<notin> set s))
   \<and> (field = p @ ''$'' @ s \<and> CHR ''$'' \<notin> set p \<and> CHR ''$'' \<notin> set s \<longrightarrow>
        (case Decimal (str_replace '','' [] s) of
           Inl e \<Rightarrow> parse_amount field = Inl e
         | Inr d \<Rightarrow>
             parse_amount field = decimal_mul d (if p = ''-'' then - 1 else 1)
             \<and> ((\<exists>a. parse_amount field = Inr a) \<longleftrightarrow> \<not> signaling d \<and> \<not> overflows d)
             \<and> (\<forall>a. p \<noteq> ''-'' \<and> parse_amount field = Inr a \<longrightarrow> negative a = negative d)))"
proof (intro conjI impI)
  assume "count_list field (CHR ''$'') \<noteq> 1"
  then show "parse_amount field = Inl ValueError"
    by (rule parse_amount_no_split)
next
  show "count_list field (CHR ''$'') = 1
      \<longleftrightarrow> (\<exists>p s. field = p @ ''$'' @ s \<and> CHR ''$'' \<notin> set p \<and> CHR ''$'' \<notin> set s)"
    by (rule one_dollar)
next
  assume "field = p @ ''$'' @ s \<and> CHR ''$'' \<notin> set p \<and> CHR ''$'' \<notin> set s"
  then have eq: "parse_amount field
      = bind (Decimal (str_replace '','' [] s))
          (\<lambda>d. decimal_mul d (if p = ''-'' then - 1 else 1))"
    by (simp add: parse_amount_split)
  show "case Decimal (str_replace '','' [] s) of
           Inl e \<Rightarrow> parse_amount field = Inl e
         | Inr d \<Rightarrow>
             parse_amount field = decimal_mul d (if p = ''-'' then - 1 else 1)
             \<and> ((\<exists>a. parse_amount field = Inr a) \<longleftrightarrow> \<not> signaling d \<and> \<not> overflows d)
             \<and> (\<forall>a. p \<noteq> ''-'' \<and> parse_amount field = Inr a \<longrightarrow> negative a = negative d)"
  proof (cases "Decimal (str_replace '','' [] s)")
    case (Inl e)
    then show ?thesis
      by (simp add: eq bind_def)
  next
    case (Inr d)
    have m: "parse_amount field = decimal_mul d (if p = ''-'' then - 1 else 1)"
      by (simp add: eq Inr bind_def)
    have "(\<exists>a. decimal_mul d (if p = ''-'' then - 1 else 1) = Inr a)
        \<longleftrightarrow> \<not> signaling d \<and> \<not> overflows d"
      by (rule decimal_mul_unit) simp
    moreover have "negative a = negative d" if "p \<noteq> ''-''" "parse_amount field = Inr a" for a
      using that m by (simp add: decimal_mul_one_sign)
    ultimately show ?thesis
      using m Inr by auto
  qed
qed

text \<open>The prefix \<^verbatim>\<open>+\<close>, and a prefix of several characters, are read as no sign.\<close>

theorem parse_amount_prefix_witness:
  "parse_amount ''+$1,000'' = Inr (Finite False 1000 0)
   \<and> parse_amount ''CAD -$1,000'' = Inr (Finite False 1000 0)
   \<and> parse_amount ''-$1,000'' = Inr (Finite True 1000 0)"
proof -
  have d: "Decimal (str_replace '','' [] ''1,000'') = Inr (Finite False 1000 0)"
    by code_simp
  have m: "decimal_mul (Finite False 1000 0) 1 = Inr (Finite False 1000 0)"
    "decimal_mul (Finite False 1000 0) (- 1) = Inr (Finite True 1000 0)"
    by code_simp+
  have h1: "''+$1,000'' = ''+'' @ ''$'' @ ''1,000'' \<and> CHR ''$'' \<notin> set ''+''
      \<and> CHR ''$'' \<notin> set ''1,000''"
    by simp
  have h2: "''CAD -$1,000'' = ''CAD -'' @ ''$'' @ ''1,000'' \<and> CHR ''$'' \<notin> set ''CAD -''
      \<and> CHR ''$'' \<notin> set ''1,000''"
    by simp
  have h3: "''-$1,000'' = ''-'' @ ''$'' @ ''1,000'' \<and> CHR ''$'' \<notin> set ''-''
      \<and> CHR ''$'' \<notin> set ''1,000''"
    by simp
  have n1: "(if ''+'' = ''-'' then - 1 else (1::int)) = 1"
    and n2: "(if ''CAD -'' = ''-'' then - 1 else (1::int)) = 1"
    and n3: "(if ''-'' = ''-'' then - 1 else (1::int)) = - 1"
    by simp_all
  note t = parse_amount_prefix [THEN conjunct2, THEN conjunct2, THEN mp]
  have "parse_amount ''+$1,000'' = Inr (Finite False 1000 0)"
    using t [OF h1] unfolding d sum.case n1 m by (rule conjunct1)
  moreover have "parse_amount ''CAD -$1,000'' = Inr (Finite False 1000 0)"
    using t [OF h2] unfolding d sum.case n2 m by (rule conjunct1)
  moreover have "parse_amount ''-$1,000'' = Inr (Finite True 1000 0)"
    using t [OF h3] unfolding d sum.case n3 m by (rule conjunct1)
  ultimately show ?thesis
    by (intro conjI)
qed

text \<open>
  As stated the claim fails: a field with exactly one \<^verbatim>\<open>$\<close> whose suffix the
  constructor accepts is still skipped when the suffix is a signaling NaN, or a number
  beyond the exponent range of the context.
\<close>

theorem parse_amount_prefix_counterexample:
  "count_list ''$sNaN'' (CHR ''$'') = 1
   \<and> Decimal (str_replace '','' [] ''sNaN'') = Inr (sNaN False 0)
   \<and> parse_row (\<lambda>c. - 25200) [''15/01/24'', ''14:30'', ''$sNaN'', ''Food'', ''lunch'']
       = Inl InvalidOperation
   \<and> count_list ''$1E+1000000'' (CHR ''$'') = 1
   \<and> Decimal (str_replace '','' [] ''1E+1000000'') = Inr (Finite False 1 1000000)
   \<and> parse_row (\<lambda>c. - 25200) [''15/01/24'', ''14:30'', ''$1E+1000000'', ''Food'', ''lunch'']
       = Inl Overflow"
  by code_simp

section \<open>The timestamp: facts\<close>

lemma bind_Inr: "bind x f = Inr v \<longleftrightarrow> (\<exists>a. x = Inr a \<and> f a = Inr v)"
  by (cases x) (simp_all add: bind_def)

lemma index_Inr: "index xs i = Inr v \<longleftrightarrow> i < length xs \<and> v = xs ! i"
  by (auto simp: index_def)

lemma unpack3_Inr:
  "(case xs of [a, b, c] \<Rightarrow> f a b c | _ \<Rightarrow> Inl e) = Inr v
     \<longleftrightarrow> (\<exists>a b c. xs = [a, b, c] \<and> f a b c = Inr v)"
  by (auto split: list.splits)

lemma unpack2_Inr:
  "(case xs of [a, b] \<Rightarrow> f a b | _ \<Rightarrow> Inl e) = Inr v
     \<longleftrightarrow> (\<exists>a b. xs = [a, b] \<and> f a b = Inr v)"
  by (auto split: list.splits)

lemma py_int_00: "py_int ''00'' = Inr 0"
  by code_simp

lemma datetime_new_Inr:
  "datetime_new y m d hh mi ss = Inr c \<longleftrightarrow>
     c_int y \<and> c_int m \<and> c_int d \<and> c_int hh \<and> c_int mi \<and> c_int ss
     \<and> 1 \<le> y \<and> y \<le> 9999 \<and> 1 \<le> m \<and> m \<le> 12 \<and> 1 \<le> d \<and> d \<le> days_in_month y m
     \<and> 0 \<le> hh \<and> hh \<le> 23 \<and> 0 \<le> mi \<and> mi \<le> 59 \<and> 0 \<le> ss \<and> ss \<le> 59
     \<and> c = \<lparr>dt_year = y, dt_month = m, dt_day = d, dt_hour = hh, dt_minute = mi, dt_second = ss\<rparr>"
  by (auto simp: datetime_new_def)

lemma astimezone_Inr:
  "astimezone tz c = Inr ts \<longleftrightarrow>
     0 \<le> civil_seconds c - tz c \<and> civil_seconds c - tz c < max_ordinal * 86400
     \<and> ts = (civil_seconds c - tz c) * 1000000"
  by (auto simp: astimezone_def Let_def)

lemma transaction_datetime_Inr:
  "transaction_datetime tz dd mm yy hh mi ''00'' = Inr ts \<longleftrightarrow>
     (\<exists>y m d h n.
        py_int yy = Inr y \<and> py_int mm = Inr m \<and> py_int dd = Inr d
        \<and> py_int hh = Inr h \<and> py_int mi = Inr n
        \<and> datetime_new (2000 + y) m d h n 0
            = Inr \<lparr>dt_year = 2000 + y, dt_month = m, dt_day = d, dt_hour = h,
                   dt_minute = n, dt_second = 0\<rparr>
        \<and> astimezone tz \<lparr>dt_year = 2000 + y, dt_month = m, dt_day = d, dt_hour = h,
                           dt_minute = n, dt_second = 0\<rparr> = Inr ts)"
  unfolding transaction_datetime_def bind_Inr py_int_00
  by (auto simp: datetime_new_Inr)

section \<open>The timestamp: the claim\<close>

text \<open>
  Claim C4. The timestamp of every valid row is the UTC instant of the local datetime
  with the year 2000 plus the two-digit year, the month, day, hour and minute of the
  row and the second 0, read in the source zone: the offset \<open>tz\<close> that the zone
  applies to that local datetime is subtracted, and the result lies in the years 1 to
  9999 of UTC.
\<close>

theorem parse_row_timestamp:
  assumes "parse_row tz row = Inr (ts, amount, category_string, notes)"
  shows "\<exists>dd mm yy hh mi y m d h n.
           str_split ''/'' (row ! 0) = [dd, mm, yy] \<and> str_split '':'' (row ! 1) = [hh, mi]
         \<and> py_int yy = Inr y \<and> py_int mm = Inr m \<and> py_int dd = Inr d
         \<and> py_int hh = Inr h \<and> py_int mi = Inr n
         \<and> 1 \<le> m \<and> m \<le> 12 \<and> 1 \<le> d \<and> d \<le> days_in_month (2000 + y) m
         \<and> 0 \<le> h \<and> h \<le> 23 \<and> 0 \<le> n \<and> n \<le> 59
         \<and> ts = (civil_seconds \<lparr>dt_year = 2000 + y, dt_month = m, dt_day = d, dt_hour = h,
                                   dt_minute = n, dt_second = 0\<rparr>
                  - tz \<lparr>dt_year = 2000 + y, dt_month = m, dt_day = d, dt_hour = h,
                         dt_minute = n, dt_second = 0\<rparr>) * 1000000
         \<and> 0 \<le> ts \<and> ts < max_ordinal * 86400 * 1000000"
proof -
  from assms obtain dd mm yy hh mi where
    date: "str_split ''/'' (row ! 0) = [dd, mm, yy]" and
    time: "str_split '':'' (row ! 1) = [hh, mi]" and
    dt: "transaction_datetime tz dd mm yy hh mi ''00'' = Inr ts"
    unfolding parse_row_def bind_Inr index_Inr unpack3_Inr unpack2_Inr
    by auto
  from dt obtain y m d h n where
    ints: "py_int yy = Inr y" "py_int mm = Inr m" "py_int dd = Inr d"
      "py_int hh = Inr h" "py_int mi = Inr n" and
    new: "datetime_new (2000 + y) m d h n 0
        = Inr \<lparr>dt_year = 2000 + y, dt_month = m, dt_day = d, dt_hour = h,
               dt_minute = n, dt_second = 0\<rparr>" and
    utc: "astimezone tz \<lparr>dt_year = 2000 + y, dt_month = m, dt_day = d, dt_hour = h,
                         dt_minute = n, dt_second = 0\<rparr> = Inr ts"
    unfolding transaction_datetime_Inr by blast
  from new have range: "1 \<le> m" "m \<le> 12" "1 \<le> d" "d \<le> days_in_month (2000 + y) m"
    "0 \<le> h" "h \<le> 23" "0 \<le> n" "n \<le> 59"
    unfolding datetime_new_Inr by simp_all
  from utc have ts: "ts = (civil_seconds \<lparr>dt_year = 2000 + y, dt_month = m, dt_day = d,
        dt_hour = h, dt_minute = n, dt_second = 0\<rparr>
      - tz \<lparr>dt_year = 2000 + y, dt_month = m, dt_day = d, dt_hour = h,
             dt_minute = n, dt_second = 0\<rparr>) * 1000000"
    and bounds: "0 \<le> ts" "ts < max_ordinal * 86400 * 1000000"
    unfolding astimezone_Inr by simp_all
  show ?thesis
    using date time ints range ts bounds by blast
qed

text \<open>
  The example of the specification: 14:30 on 15 January 2024, in a zone that is seven
  hours behind UTC on that date, is 21:30 UTC.
\<close>

theorem parse_row_timestamp_witness:
  "\<exists>ts amount category_string notes.
      parse_row (\<lambda>c. - 25200) [''15/01/24'', ''14:30'', ''-$1,234.56'', ''Food'', ''lunch'']
        = Inr (ts, amount, category_string, notes)
    \<and> ts = (civil_seconds \<lparr>dt_year = 2024, dt_month = 1, dt_day = 15, dt_hour = 14,
                             dt_minute = 30, dt_second = 0\<rparr> + 25200) * 1000000
    \<and> isoformat ts = ''2024-01-15T21:30:00+00:00''"
proof -
  let ?row = "[''15/01/24'', ''14:30'', ''-$1,234.56'', ''Food'', ''lunch'']"
  have r: "parse_row (\<lambda>c. - 25200) ?row
      = Inr (63840951000000000, Finite True 123456 (- 2), ''Food'', ''lunch'')"
    by code_simp
  have iso: "isoformat 63840951000000000 = ''2024-01-15T21:30:00+00:00''"
    by code_simp
  have s1: "str_split ''/'' (?row ! 0) = [''15'', ''01'', ''24'']"
    and s2: "str_split '':'' (?row ! 1) = [''14'', ''30'']"
    by code_simp+
  have i: "py_int ''24'' = Inr 24" "py_int ''01'' = Inr 1" "py_int ''15'' = Inr 15"
    "py_int ''14'' = Inr 14" "py_int ''30'' = Inr 30"
    by code_simp+
  from parse_row_timestamp [OF r] obtain dd mm yy hh mi y m d h n where
    a: "str_split ''/'' (?row ! 0) = [dd, mm, yy]" "str_split '':'' (?row ! 1) = [hh, mi]" and
    b: "py_int yy = Inr y" "py_int mm = Inr m" "py_int dd = Inr d" "py_int hh = Inr h"
      "py_int mi = Inr n" and
    c: "63840951000000000 = (civil_seconds \<lparr>dt_year = 2000 + y, dt_month = m, dt_day = d,
          dt_hour = h, dt_minute = n, dt_second = 0\<rparr> - (- 25200)) * 1000000"
    by blast
  from a have "dd = ''15''" "mm = ''01''" "yy = ''24''" "hh = ''14''" "mi = ''30''"
    unfolding s1 s2 by simp_all
  with b have "y = 24" "m = 1" "d = 15" "h = 14" "n = 30"
    by (simp_all add: i)
  with c have "63840951000000000 = (civil_seconds \<lparr>dt_year = 2024, dt_month = 1, dt_day = 15,
      dt_hour = 14, dt_minute = 30, dt_second = 0\<rparr> + 25200) * 1000000"
    by simp
  with r iso show ?thesis
    by blast
qed

section \<open>Serialization: the assertion\<close>

lemma categories_loop_defined:
  assumes "list_all (\<lambda>r. c_created_at (h r) \<noteq> None) cs"
  shows "categories_loop h cs
           = Inr (map (\<lambda>r. (c_name (h r), isoformat (the (c_created_at (h r))))) cs)"
  using assms by (induction cs) (auto simp: bind_def)

lemma categories_loop_error:
  "categories_loop h cs = Inl e \<Longrightarrow> e = AssertionError"
  by (induction cs arbitrary: e) (auto simp: bind_def split: option.splits sum.splits)

lemma py_float_cases:
  "(\<exists>f. py_float float_repr d = Inr (JFloat f)) \<or> py_float float_repr d = Inl ValueError"
  by (cases d) (simp_all add: py_float_def)

lemma transactions_loop_cases:
  assumes "\<forall>t\<in>set txs. \<exists>d\<in>set cats. c_name (h (t_category t)) = fst d"
  shows "(\<exists>js. transactions_loop float_repr h cats txs = Inr js)
       \<or> transactions_loop float_repr h cats txs = Inl ValueError"
  using assms
proof (induction txs)
  case Nil
  show ?case by simp
next
  case (Cons t ts)
  from Cons.prems obtain d where "d \<in> set cats" "c_name (h (t_category t)) = fst d"
    by auto
  then have "filter (\<lambda>d. c_name (h (t_category t)) = fst d) cats \<noteq> []"
    by (auto simp: filter_empty_conv)
  then obtain d' ds where f: "filter (\<lambda>d. c_name (h (t_category t)) = fst d) cats = d' # ds"
    by (cases "filter (\<lambda>d. c_name (h (t_category t)) = fst d) cats") auto
  from Cons have ih: "(\<exists>js. transactions_loop float_repr h cats ts = Inr js)
       \<or> transactions_loop float_repr h cats ts = Inl ValueError"
    by simp
  show ?case
    using py_float_cases [of float_repr "t_amount t"] ih
    by (auto simp: f bind_def)
qed

lemma aggregated_defined:
  assumes "r \<in> t_category ` set txs"
  shows "c_created_at (assigned (earliest_loop h txs Map.empty) (t_category ` set txs) h r) \<noteq> None"
proof -
  from assms obtain t where t: "t \<in> set txs" "r = t_category t"
    by auto
  then show ?thesis
    using earliest_loop_defined [OF t(1), of h] assms by (simp add: assigned_def)
qed

text \<open>
  Claim C5. \<^verbatim>\<open>__repr__\<close> starts with the aggregation, which succeeds and leaves a
  timestamp on every category instance that a transaction of the ledger refers to;
  the loop over \<^verbatim>\<open>self.categories\<close> therefore passes its assertion on every instance,
  and the serialization never ends with an AssertionError. (It ends with an exception
  only for an amount that is a signaling NaN, which \<^verbatim>\<open>float\<close> refuses.)
\<close>

theorem repr_assertion_never_fails:
  assumes "set cs = t_category ` set txs"
  shows "\<exists>h' cats. set_default_category_created_ats txs h = Inr h'
           \<and> list_all (\<lambda>r. c_created_at (h' r) \<noteq> None) cs
           \<and> categories_loop h' cs = Inr cats
           \<and> repr float_repr cs txs h \<noteq> Inl AssertionError
           \<and> ((\<exists>out. repr float_repr cs txs h = Inr (out, h'))
                \<or> repr float_repr cs txs h = Inl ValueError)"
proof -
  let ?h' = "assigned (earliest_loop h txs Map.empty) (t_category ` set txs) h"
  let ?cats = "map (\<lambda>r. (c_name (?h' r), isoformat (the (c_created_at (?h' r))))) cs"
  have run: "set_default_category_created_ats txs h = Inr ?h'"
    by (rule set_default_result)
  have stamped: "list_all (\<lambda>r. c_created_at (?h' r) \<noteq> None) cs"
    using assms aggregated_defined [of _ txs h] by (simp add: list_all_iff)
  then have loop: "categories_loop ?h' cs = Inr ?cats"
    by (rule categories_loop_defined)
  have "\<forall>t\<in>set txs. \<exists>d\<in>set ?cats. c_name (?h' (t_category t)) = fst d"
    using assms by auto
  then have "(\<exists>js. transactions_loop float_repr ?h' ?cats txs = Inr js)
       \<or> transactions_loop float_repr ?h' ?cats txs = Inl ValueError"
    by (rule transactions_loop_cases)
  then have "(\<exists>out. repr float_repr cs txs h = Inr (out, ?h'))
       \<or> repr float_repr cs txs h = Inl ValueError"
    by (auto simp: repr_def run loop bind_def)
  then show ?thesis
    using run stamped loop by (intro exI [of _ ?h'] exI [of _ ?cats]) auto
qed

text \<open>
  A ledger of two transactions, each with its own category instance named Food and
  without a timestamp, iterated from the second instance to the first.
\<close>

theorem repr_assertion_never_fails_witness:
  "\<exists>h' cats. set_default_category_created_ats
        [\<lparr>t_created_at = 200, t_amount = Finite False 5 0, t_category = 0, t_notes = ''late''\<rparr>,
         \<lparr>t_created_at = 100, t_amount = Finite False 5 0, t_category = 1, t_notes = ''early''\<rparr>]
        (\<lambda>r. \<lparr>c_name = ''Food'', c_created_at = None\<rparr>) = Inr h'
     \<and> list_all (\<lambda>r. c_created_at (h' r) \<noteq> None) [1, 0]
     \<and> categories_loop h' [1, 0] = Inr cats
     \<and> repr (\<lambda>d. ''5.0'') [1, 0]
          [\<lparr>t_created_at = 200, t_amount = Finite False 5 0, t_category = 0, t_notes = ''late''\<rparr>,
           \<lparr>t_created_at = 100, t_amount = Finite False 5 0, t_category = 1, t_notes = ''early''\<rparr>]
          (\<lambda>r. \<lparr>c_name = ''Food'', c_created_at = None\<rparr>) \<noteq> Inl AssertionError
     \<and> ((\<exists>out. repr (\<lambda>d. ''5.0'') [1, 0]
          [\<lparr>t_created_at = 200, t_amount = Finite False 5 0, t_category = 0, t_notes = ''late''\<rparr>,
           \<lparr>t_created_at = 100, t_amount = Finite False 5 0, t_category = 1, t_notes = ''early''\<rparr>]
          (\<lambda>r. \<lparr>c_name = ''Food'', c_created_at = None\<rparr>) = Inr (out, h'))
        \<or> repr (\<lambda>d. ''5.0'') [1, 0]
          [\<lparr>t_created_at = 200, t_amount = Finite False 5 0, t_category = 0, t_notes = ''late''\<rparr>,
           \<lparr>t_created_at = 100, t_amount = Finite False 5 0, t_category = 1, t_notes = ''early''\<rparr>]
          (\<lambda>r. \<lparr>c_name = ''Food'', c_created_at = None\<rparr>) = Inl ValueError)"
  by (rule repr_assertion_never_fails) auto

section \<open>Replacement in the serialized text: facts\<close>

text \<open>No occurrence of \<open>old\<close> starts in a text that lacks the first character of \<open>old\<close>.\<close>

lemma replace_from_skip:
  assumes "old \<noteq> []" "hd old \<notin> set u"
  shows "replace_from old new (u @ rest) = u @ replace_from old new rest"
  using assms(2)
proof (induction u)
  case Nil
  show ?case by simp
next
  case (Cons x u)
  have "take (length old) (x # u @ rest) \<noteq> old"
  proof
    assume "take (length old) (x # u @ rest) = old"
    then have "hd old = x"
      using assms(1) by (cases old) auto
    with Cons.prems show False by simp
  qed
  with Cons show ?case by simp
qed

text \<open>No occurrence of \<open>old\<close> runs over a character that \<open>old\<close> does not contain.\<close>

lemma replace_from_cut:
  assumes "c \<notin> set old"
  shows "replace_from old new (a @ c # b)
           = replace_from old new a @ c # replace_from old new b"
  using assms
proof (induction old new a rule: replace_from.induct)
  case (1 old new)
  have "take (length old) (c # b) \<noteq> old \<or> old = []"
  proof (cases old)
    case Nil
    then show ?thesis by simp
  next
    case (Cons y ys)
    then have "c \<noteq> y" using "1.prems" by auto
    then show ?thesis using Cons by auto
  qed
  then show ?case by auto
next
  case (2 old new x xs)
  show ?case
  proof (cases "old \<noteq> [] \<and> take (length old) (x # xs) = old")
    case True
    then have "length (take (length old) (x # xs)) = length old"
      by simp
    then have len: "length old \<le> length (x # xs)"
      unfolding length_take by linarith
    have "take (length old) ((x # xs) @ c # b) = take (length old) (x # xs)"
      using len by (subst take_append) simp
    then have t: "take (length old) ((x # xs) @ c # b) = old"
      using True by simp
    have d: "drop (length old) ((x # xs) @ c # b) = drop (length old) (x # xs) @ c # b"
      using len by (subst drop_append) simp
    show ?thesis
      using True t d "2.IH"(1) "2.prems" by (simp del: take_Suc_Cons drop_Suc_Cons)
  next
    case False
    have "\<not> (old \<noteq> [] \<and> take (length old) ((x # xs) @ c # b) = old)"
    proof
      assume m: "old \<noteq> [] \<and> take (length old) ((x # xs) @ c # b) = old"
      show False
      proof (cases "length old \<le> length (x # xs)")
        case True
        then have "take (length old) ((x # xs) @ c # b) = take (length old) (x # xs)"
          by (subst take_append) simp
        with False m show False by simp
      next
        case False
        then obtain k where k: "length old = length (x # xs) + Suc k"
          by (metis add_Suc_right less_imp_Suc_add not_le)
        have "take (length (x # xs) + Suc k) ((x # xs) @ c # b) = (x # xs) @ c # take k b"
          by (subst take_append) simp
        then have "c \<in> set (take (length old) ((x # xs) @ c # b))"
          unfolding k by simp
        with m "2.prems" show False by simp
      qed
    qed
    then show ?thesis
      using False "2.IH"(2) "2.prems" by auto
  qed
qed

section \<open>The serialized document after the replacement\<close>

text \<open>
  The replacement that \<^verbatim>\<open>__repr__\<close> applies to the whole text, and the same
  replacement applied to every key, every string and every number of a value; the
  strings found under a key anywhere in a value, in the order of the document; and the
  ISO format with a literal \<^verbatim>\<open>Z\<close> for the offset.
\<close>

definition zulu :: "string \<Rightarrow> string" where
  "zulu s = str_replace ''+00:00'' ''Z'' s"

fun substitute :: "json \<Rightarrow> json" where
  "substitute (JString s) = JString (zulu s)"
| "substitute (JFloat f) = JFloat (zulu f)"
| "substitute (JList xs) = JList (map substitute xs)"
| "substitute (JDict kvs) = JDict (map (\<lambda>kv. (zulu (fst kv), substitute (snd kv))) kvs)"

fun strings_at :: "string \<Rightarrow> json \<Rightarrow> string list" where
  "strings_at k (JString s) = []"
| "strings_at k (JFloat f) = []"
| "strings_at k (JList xs) = concat (map (strings_at k) xs)"
| "strings_at k (JDict kvs) =
     concat (map (\<lambda>kv. (case snd kv of
                            JString s \<Rightarrow> if fst kv = k then [s] else []
                          | v \<Rightarrow> strings_at k v)) kvs)"

definition isoformat_z :: "datetime \<Rightarrow> string" where
  "isoformat_z t = iso_body t @ ''Z''"

lemma zulu_replace: "zulu s = replace_from ''+00:00'' ''Z'' s"
  by (simp add: zulu_def str_replace_def)

lemma zulu_skip: "CHR ''+'' \<notin> set u \<Longrightarrow> zulu (u @ rest) = u @ zulu rest"
  unfolding zulu_replace by (rule replace_from_skip) simp_all

lemma zulu_clean: "CHR ''+'' \<notin> set u \<Longrightarrow> zulu u = u"
  using zulu_skip [of u "[]"] by (simp add: zulu_replace)

lemma zulu_cut:
  "c \<notin> set ''+00:00'' \<Longrightarrow> zulu (a @ c # b) = zulu a @ c # zulu b"
  unfolding zulu_replace by (rule replace_from_cut)

lemma zulu_hit: "zulu (''+00:00'' @ rest) = ''Z'' @ zulu rest"
  by (simp add: zulu_replace)

lemma zulu_Nil: "zulu [] = []"
  by (simp add: zulu_replace)

lemma hex_digit_not_plus: "k < 16 \<Longrightarrow> hex_digit k \<noteq> CHR ''+''"
proof -
  assume "k < 16"
  then have "k < length ''0123456789abcdef''"
    by simp
  then have "''0123456789abcdef'' ! k \<in> set ''0123456789abcdef''"
    by (rule nth_mem)
  moreover have "CHR ''+'' \<notin> set ''0123456789abcdef''"
    by simp
  ultimately show ?thesis
    unfolding hex_digit_def by metis
qed

lemma of_char_div_16: "(of_char c :: nat) div 16 < 16"
proof -
  have "(of_char c :: nat) mod 256 = of_char c"
    by (rule of_char_mod_256)
  then have "(of_char c :: nat) < 16 * 16"
    by (metis mod_less_divisor zero_less_numeral numeral_times_numeral semiring_norm(12,13,14) num.simps)
  then show ?thesis
    by (rule less_mult_imp_div_less)
qed

lemma escape_char_cases:
  "escape_char y = [y] \<and> y \<noteq> CHR 0x5C
   \<or> (hd (escape_char y) = CHR 0x5C \<and> CHR ''+'' \<notin> set (escape_char y))"
  using hex_digit_not_plus [OF of_char_div_16 [of y]]
    hex_digit_not_plus [of "(of_char y :: nat) mod 16"]
  by (auto simp: escape_char_def)

lemma escape_char_other: "y \<noteq> CHR ''+'' \<Longrightarrow> CHR ''+'' \<notin> set (escape_char y)"
  using escape_char_cases [of y] by auto

lemma escape_char_nonempty: "escape_char y \<noteq> []"
  by (simp add: escape_char_def)

text \<open>
  A text without a backslash that starts the escaped form of a string starts the
  string itself: an escape sequence begins with a backslash.
\<close>

lemma escaped_prefix:
  assumes "CHR 0x5C \<notin> set p"
  shows "concat (map escape_char ys) = p @ r \<Longrightarrow> \<exists>r'. ys = p @ r'"
  using assms
proof (induction p arbitrary: ys r)
  case Nil
  show ?case by simp
next
  case (Cons c p)
  from Cons.prems(1) obtain z zs where ys: "ys = z # zs"
    by (cases ys) auto
  with Cons.prems(1) have e: "escape_char z @ concat (map escape_char zs) = c # p @ r"
    by simp
  have c: "c \<noteq> CHR 0x5C"
    using Cons.prems(2) by auto
  have "hd (escape_char z) = c"
    using e escape_char_nonempty [of z] by (cases "escape_char z") auto
  with c escape_char_cases [of z] have z: "escape_char z = [z]"
    by auto
  with e have "z = c" "concat (map escape_char zs) = p @ r"
    by auto
  moreover from this(2) Cons.prems(2) obtain r' where "zs = p @ r'"
    using Cons.IH [of zs r] by auto
  ultimately show ?case
    using ys by simp
qed

lemma zulu_miss:
  assumes "\<not> (\<exists>r. y # ys = ''+00:00'' @ r)"
  shows "zulu (y # ys) = y # zulu ys"
proof -
  have "take (length ''+00:00'') (y # ys) \<noteq> ''+00:00''"
  proof
    assume "take (length ''+00:00'') (y # ys) = ''+00:00''"
    then have "y # ys = ''+00:00'' @ drop (length ''+00:00'') (y # ys)"
      by (metis append_take_drop_id)
    with assms show False by blast
  qed
  then show ?thesis
    unfolding zulu_replace by (subst replace_from.simps(2)) (simp only: if_False simp_thms)
qed

lemma escaped_pattern:
  "concat (map escape_char (''+00:00'' @ r)) = ''+00:00'' @ concat (map escape_char r)"
  by (simp add: escape_char_def)

lemma escaped_Z:
  "concat (map escape_char (''Z'' @ r)) = ''Z'' @ concat (map escape_char r)"
  by (simp add: escape_char_def)

text \<open>Replacing in the escaped form of a string is escaping the replaced string.\<close>

lemma zulu_escaped:
  "zulu (concat (map escape_char s)) = concat (map escape_char (zulu s))"
proof (induction "length s" arbitrary: s rule: less_induct)
  case less
  show ?case
  proof (cases s)
    case Nil
    then show ?thesis by (simp add: zulu_Nil)
  next
    case (Cons y ys)
    show ?thesis
    proof (cases "\<exists>r. s = ''+00:00'' @ r")
      case True
      then obtain r where r: "s = ''+00:00'' @ r"
        by blast
      then have "length r < length s"
        by simp
      then have ih: "zulu (concat (map escape_char r)) = concat (map escape_char (zulu r))"
        by (rule less)
      have "zulu (concat (map escape_char s)) = ''Z'' @ zulu (concat (map escape_char r))"
        unfolding r escaped_pattern by (rule zulu_hit)
      also have "\<dots> = concat (map escape_char (''Z'' @ zulu r))"
        unfolding escaped_Z ih by (rule refl)
      also have "''Z'' @ zulu r = zulu s"
        unfolding r by (rule zulu_hit [symmetric])
      finally show ?thesis .
    next
      case False
      then have m: "zulu (y # ys) = y # zulu ys"
        unfolding Cons by (rule zulu_miss)
      have "length ys < length s"
        using Cons by simp
      then have ih: "zulu (concat (map escape_char ys)) = concat (map escape_char (zulu ys))"
        by (rule less)
      have "zulu (escape_char y @ concat (map escape_char ys))
              = escape_char y @ zulu (concat (map escape_char ys))"
      proof (cases "y = CHR ''+''")
        case False
        then have "CHR ''+'' \<notin> set (escape_char y)"
          by (rule escape_char_other)
        then show ?thesis
          by (rule zulu_skip)
      next
        case True
        have e: "escape_char y = [y]"
          using True by (simp add: escape_char_def)
        have "\<not> (\<exists>r. y # concat (map escape_char ys) = ''+00:00'' @ r)"
        proof
          assume "\<exists>r. y # concat (map escape_char ys) = ''+00:00'' @ r"
          then obtain r where "concat (map escape_char ys) = ''00:00'' @ r"
            by auto
          moreover have "CHR 0x5C \<notin> set ''00:00''"
            by simp
          ultimately obtain r' where "ys = ''00:00'' @ r'"
            using escaped_prefix by blast
          then have "s = ''+00:00'' @ r'"
            using Cons True by simp
          with False show False by blast
        qed
        then show ?thesis
          unfolding e by (simp add: zulu_miss)
      qed
      then show ?thesis
        unfolding Cons m by (simp add: ih)
    qed
  qed
qed

section \<open>The replacement and the structure of the document\<close>

lemma zulu_encode_string:
  "zulu (encode_string s @ rest) = encode_string (zulu s) @ zulu rest"
proof -
  have q: "CHR 0x22 \<notin> set ''+00:00''"
    by simp
  have "zulu (encode_string s @ rest)
          = zulu ([] @ CHR 0x22 # (concat (map escape_char s) @ CHR 0x22 # rest))"
    by (simp add: encode_string_def)
  also have "\<dots> = CHR 0x22 # zulu (concat (map escape_char s) @ CHR 0x22 # rest)"
    unfolding zulu_cut [OF q] by (simp add: zulu_Nil)
  also have "\<dots> = CHR 0x22 # zulu (concat (map escape_char s)) @ CHR 0x22 # zulu rest"
    unfolding zulu_cut [OF q] by (rule refl)
  finally show ?thesis
    by (simp add: zulu_escaped encode_string_def)
qed

text \<open>
  What follows a value in the text is empty or begins with a character that is not
  in the replaced text: a comma, a line feed.
\<close>

lemma zulu_apart:
  assumes "rest = [] \<or> hd rest \<notin> set ''+00:00''"
  shows "zulu (f @ rest) = zulu f @ zulu rest"
proof (cases rest)
  case Nil
  then show ?thesis by (simp add: zulu_Nil)
next
  case (Cons c b)
  with assms have "c \<notin> set ''+00:00''"
    by simp
  then have "zulu (f @ c # b) = zulu f @ c # zulu b" "zulu ([] @ c # b) = zulu [] @ c # zulu b"
    by (rule zulu_cut)+
  then show ?thesis
    unfolding Cons by (simp add: zulu_Nil)
qed

lemma newline_indent_plus: "CHR ''+'' \<notin> set (newline_indent l)"
  by (simp add: newline_indent_def)

lemma newline_indent_hd: "hd (newline_indent l @ r) = CHR 0x0A"
  by (simp add: newline_indent_def)

lemma zulu_join:
  assumes f: "\<And>x rest. x \<in> set xs \<Longrightarrow> rest = [] \<or> hd rest \<notin> set ''+00:00''
                 \<Longrightarrow> zulu (f x @ rest) = g x @ zulu rest"
    and rest: "rest = [] \<or> hd rest \<notin> set ''+00:00''"
  shows "zulu (join ('','' @ newline_indent l) (map f xs) @ rest)
           = join ('','' @ newline_indent l) (map g xs) @ zulu rest"
  using f
proof (induction xs)
  case Nil
  show ?case by simp
next
  case (Cons x xs)
  show ?case
  proof (cases xs)
    case Nil
    then show ?thesis
      using Cons.prems [of x rest] rest by simp
  next
    case (Cons y ys)
    let ?sep = "'','' @ newline_indent l"
    let ?tail = "join ?sep (map f (y # ys)) @ rest"
    have ih: "zulu ?tail = join ?sep (map g (y # ys)) @ zulu rest"
      using Cons.IH Cons.prems unfolding Cons by simp
    have "zulu (f x @ (?sep @ ?tail)) = g x @ zulu (?sep @ ?tail)"
      using Cons.prems [of x "?sep @ ?tail"] by simp
    also have "zulu (?sep @ ?tail) = ?sep @ zulu ?tail"
      by (rule zulu_skip) (simp add: newline_indent_plus)
    finally show ?thesis
      using ih unfolding Cons by simp
  qed
qed

text \<open>
  The replacement on the text of a value is the text of the value in which every
  key, string and number has undergone the replacement: no occurrence of the replaced
  text runs over the quotes, brackets, commas and line feeds of the layout.
\<close>

lemma zulu_encode:
  "rest = [] \<or> hd rest \<notin> set ''+00:00''
     \<Longrightarrow> zulu (encode l j @ rest) = encode l (substitute j) @ zulu rest"
proof (induction j arbitrary: l rest)
  case (JString s)
  show ?case by (simp add: zulu_encode_string)
next
  case (JFloat f)
  then show ?case by (simp add: zulu_apart)
next
  case (JList xs)
  show ?case
  proof (cases "xs = []")
    case True
    have "zulu (''[]'' @ rest) = ''[]'' @ zulu rest"
      by (rule zulu_skip) simp
    with True show ?thesis by simp
  next
    case False
    let ?sep = "'','' @ newline_indent (Suc l)"
    let ?close = "newline_indent l @ '']'' @ rest"
    have c: "?close = [] \<or> hd ?close \<notin> set ''+00:00''"
      using newline_indent_hd [of l "'']'' @ rest"] by simp
    have "zulu ((''['' @ newline_indent (Suc l))
                  @ join ?sep (map (encode (Suc l)) xs) @ ?close)
            = (''['' @ newline_indent (Suc l))
                @ zulu (join ?sep (map (encode (Suc l)) xs) @ ?close)"
      by (rule zulu_skip) (simp add: newline_indent_plus)
    also have "zulu (join ?sep (map (encode (Suc l)) xs) @ ?close)
            = join ?sep (map (\<lambda>x. encode (Suc l) (substitute x)) xs) @ zulu ?close"
      using JList.IH c by (intro zulu_join) auto
    also have "zulu ?close = newline_indent l @ '']'' @ zulu rest"
      using zulu_skip [of "newline_indent l @ '']''" rest] by (simp add: newline_indent_plus)
    finally show ?thesis
      using False by (simp add: comp_def)
  qed
next
  case (JDict kvs)
  show ?case
  proof (cases "kvs = []")
    case True
    have "zulu (''{}'' @ rest) = ''{}'' @ zulu rest"
      by (rule zulu_skip) simp
    with True show ?thesis by simp
  next
    case False
    let ?sep = "'','' @ newline_indent (Suc l)"
    let ?close = "newline_indent l @ ''}'' @ rest"
    let ?f = "\<lambda>kv. encode_string (fst kv) @ '': '' @ encode (Suc l) (snd kv)"
    let ?g = "\<lambda>kv. encode_string (zulu (fst kv)) @ '': '' @ encode (Suc l) (substitute (snd kv))"
    have c: "?close = [] \<or> hd ?close \<notin> set ''+00:00''"
      using newline_indent_hd [of l "''}'' @ rest"] by simp
    have item: "zulu (?f kv @ r) = ?g kv @ zulu r"
      if "kv \<in> set kvs" "r = [] \<or> hd r \<notin> set ''+00:00''" for kv r
    proof -
      have "zulu (encode_string (fst kv) @ ('': '' @ encode (Suc l) (snd kv) @ r))
              = encode_string (zulu (fst kv)) @ zulu ('': '' @ encode (Suc l) (snd kv) @ r)"
        by (rule zulu_encode_string)
      also have "zulu ('': '' @ encode (Suc l) (snd kv) @ r)
              = '': '' @ zulu (encode (Suc l) (snd kv) @ r)"
        by (rule zulu_skip) simp
      also have "zulu (encode (Suc l) (snd kv) @ r)
              = encode (Suc l) (substitute (snd kv)) @ zulu r"
        using that by (intro JDict.IH [of kv "snd kv"]) (cases kv, auto)+
      finally show ?thesis by simp
    qed
    have "zulu ((''{'' @ newline_indent (Suc l)) @ join ?sep (map ?f kvs) @ ?close)
            = (''{'' @ newline_indent (Suc l)) @ zulu (join ?sep (map ?f kvs) @ ?close)"
      by (rule zulu_skip) (simp add: newline_indent_plus)
    also have "zulu (join ?sep (map ?f kvs) @ ?close) = join ?sep (map ?g kvs) @ zulu ?close"
      using item c by (intro zulu_join) auto
    also have "zulu ?close = newline_indent l @ ''}'' @ zulu rest"
      using zulu_skip [of "newline_indent l @ ''}''" rest] by (simp add: newline_indent_plus)
    finally show ?thesis
      using False by (simp add: comp_def)
  qed
qed

lemma zulu_dumps: "zulu (dumps j) = dumps (substitute j)"
  using zulu_encode [of "[]" 0 j] by (simp add: dumps_def zulu_Nil)

section \<open>The timestamps of the document\<close>

lemma show_nat_plus: "CHR ''+'' \<notin> set (show_nat n)"
proof (induction n rule: show_nat.induct)
  case (1 n)
  have d: "char_of (48 + m) \<noteq> CHR ''+''" if "m < 10" for m :: nat
  proof
    assume "char_of (48 + m) = CHR ''+''"
    then have "(of_char (char_of (48 + m) :: char) :: nat) = of_char (CHR ''+'')"
      by simp
    then have "(48 + m) mod 256 = 43"
      by simp
    with that show False
      by simp
  qed
  show ?case
  proof (cases "n < 10")
    case True
    then show ?thesis
      using d [of n] by (subst show_nat.simps) simp
  next
    case False
    then show ?thesis
      using 1 d [of "n mod 10"] by (subst show_nat.simps) simp
  qed
qed

lemma pad_plus: "CHR ''+'' \<notin> set (pad w n)"
  by (simp add: pad_def show_nat_plus)

lemma iso_body_plus: "CHR ''+'' \<notin> set (iso_body t)"
  by (simp add: iso_body_def Let_def pad_plus)

lemma zulu_isoformat: "zulu (isoformat t) = isoformat_z t"
proof -
  have "zulu (iso_body t @ ''+00:00'') = iso_body t @ zulu (''+00:00'' @ [])"
    using zulu_skip [OF iso_body_plus, of t "''+00:00''"] by simp
  also have "zulu (''+00:00'' @ []) = ''Z'' @ zulu []"
    by (rule zulu_hit)
  finally show ?thesis
    by (simp add: isoformat_def isoformat_z_def zulu_Nil)
qed

lemma isoformat_z_plus: "CHR ''+'' \<notin> set (isoformat_z t)"
  by (simp add: isoformat_z_def iso_body_plus)

lemma zulu_keys:
  "zulu ''name'' = ''name''"
  "zulu ''created_at'' = ''created_at''"
  "zulu ''category'' = ''category''"
  "zulu ''description'' = ''description''"
  "zulu ''amount'' = ''amount''"
  "zulu ''transactions'' = ''transactions''"
  "zulu ''categories'' = ''categories''"
  by (rule zulu_clean, simp)+

text \<open>The results of the two loops of \<^verbatim>\<open>__repr__\<close>, when they end without an exception.\<close>

lemma categories_loop_Inr:
  assumes "categories_loop h cs = Inr cats"
  shows "cats = map (\<lambda>r. (c_name (h r), isoformat (the (c_created_at (h r))))) cs"
    and "list_all (\<lambda>r. c_created_at (h r) \<noteq> None) cs"
  using assms
  by (induction cs arbitrary: cats; auto simp: bind_def split: option.splits sum.splits)+

definition transaction_dict ::
  "(decimal \<Rightarrow> string) \<Rightarrow> heap \<Rightarrow> (string \<times> string) list \<Rightarrow> Transaction \<Rightarrow> json" where
  "transaction_dict float_repr h cats t =
     JDict [(''category'',
               category_dict (hd (filter (\<lambda>d. c_name (h (t_category t)) = fst d) cats))),
            (''description'', JString (t_notes t)),
            (''amount'', JFloat (float_repr (t_amount t))),
            (''created_at'', JString (isoformat (t_created_at t)))]"

lemma transactions_loop_Inr:
  assumes "transactions_loop float_repr h cats txs = Inr tds"
  shows "tds = map (transaction_dict float_repr h cats) txs"
    and "\<forall>t\<in>set txs. filter (\<lambda>d. c_name (h (t_category t)) = fst d) cats \<noteq> []"
  using assms
  by (induction txs arbitrary: tds;
      auto simp: bind_def transaction_dict_def py_float_def
           split: list.splits sum.splits decimal.splits)+

lemma repr_document:
  assumes "set_default_category_created_ats txs h = Inr h'"
    and "categories_loop h' cs = Inr cats"
    and "transactions_loop float_repr h' cats txs = Inr tds"
  shows "repr float_repr cs txs h = Inr (dumps (substitute (top_level tds cats)), h')"
  using assms by (simp add: repr_def bind_def zulu_dumps [symmetric] zulu_def)

lemma strings_at_top_level:
  "strings_at k (substitute (top_level tds cats))
     = concat (map (\<lambda>j. strings_at k (substitute j)) tds)
         @ concat (map (\<lambda>d. strings_at k (substitute (category_dict d))) cats)"
  by (simp add: top_level_def comp_def)

lemma created_at_category:
  "strings_at ''created_at'' (substitute (category_dict d)) = [zulu (snd d)]"
  by (simp add: category_dict_def zulu_keys)

lemma created_at_transaction:
  "strings_at ''created_at'' (substitute (transaction_dict float_repr h cats t))
     = [zulu (snd (hd (filter (\<lambda>d. c_name (h (t_category t)) = fst d) cats))),
        zulu (isoformat (t_created_at t))]"
  by (simp add: transaction_dict_def category_dict_def zulu_keys)

lemma length_concat_const:
  "(\<And>x. x \<in> set xs \<Longrightarrow> length (f x) = n) \<Longrightarrow> length (concat (map f xs)) = n * length xs"
  by (induction xs) auto

section \<open>The timestamps of the document: the claim\<close>

text \<open>
  Claim C7. When \<^verbatim>\<open>__repr__\<close> returns, its text is the JSON text of a document
  (the dictionaries that the loops have built, after the replacement) in which there
  are two strings under the key \<^verbatim>\<open>created_at\<close> for every transaction (its own and
  that of its category dictionary) and one for every category of the array of
  categories. Each of them is the ISO format of a timestamp of the ledger, of a
  transaction or of a category of the store after the aggregation, with the letter
  \<^verbatim>\<open>Z\<close> in the place of the offset; it contains no \<^verbatim>\<open>+\<close>, so that it does not
  end in \<^verbatim>\<open>+00:00\<close>.
\<close>

theorem created_at_zulu:
  assumes "set_default_category_created_ats txs h = Inr h'"
    and "categories_loop h' cs = Inr cats"
    and "transactions_loop float_repr h' cats txs = Inr tds"
  shows "repr float_repr cs txs h = Inr (dumps (substitute (top_level tds cats)), h')
       \<and> length (strings_at ''created_at'' (substitute (top_level tds cats)))
           = 2 * length txs + length cs
       \<and> (\<forall>v\<in>set (strings_at ''created_at'' (substitute (top_level tds cats))).
            (\<exists>t. (t \<in> t_created_at ` set txs \<or> (\<exists>c\<in>set cs. c_created_at (h' c) = Some t))
                  \<and> v = isoformat_z t)
            \<and> CHR ''+'' \<notin> set v \<and> last v = CHR ''Z'')"
proof -
  let ?doc = "substitute (top_level tds cats)"
  let ?stamp = "\<lambda>t. t \<in> t_created_at ` set txs \<or> (\<exists>c\<in>set cs. c_created_at (h' c) = Some t)"
  note cats = categories_loop_Inr [OF assms(2)]
  note tds = transactions_loop_Inr [OF assms(3)]
  have strings: "strings_at ''created_at'' ?doc
      = concat (map (\<lambda>t. [zulu (snd (hd (filter (\<lambda>d. c_name (h' (t_category t)) = fst d) cats))),
                           zulu (isoformat (t_created_at t))]) txs)
          @ map (\<lambda>d. zulu (snd d)) cats"
    unfolding strings_at_top_level tds(1)
    by (simp add: comp_def created_at_category created_at_transaction)
  have len: "length (strings_at ''created_at'' ?doc) = 2 * length txs + length cs"
    unfolding strings using cats(1) by (simp add: length_concat_const [where n = 2])
  have cat: "\<exists>t. ?stamp t \<and> zulu (snd d) = isoformat_z t" if "d \<in> set cats" for d
  proof -
    from that cats(1) obtain c where c: "c \<in> set cs"
        "d = (c_name (h' c), isoformat (the (c_created_at (h' c))))"
      by auto
    with cats(2) obtain t where t: "c_created_at (h' c) = Some t"
      by (auto simp: list_all_iff)
    with c have "zulu (snd d) = isoformat_z t"
      by (simp add: zulu_isoformat)
    with c(1) t show ?thesis
      by blast
  qed
  have stamps: "\<exists>t. ?stamp t \<and> v = isoformat_z t"
    if "v \<in> set (strings_at ''created_at'' ?doc)" for v
  proof -
    from that consider
        (category) t where "t \<in> set txs"
          "v = zulu (snd (hd (filter (\<lambda>d. c_name (h' (t_category t)) = fst d) cats)))"
      | (own) t where "t \<in> set txs" "v = zulu (isoformat (t_created_at t))"
      | (array) d where "d \<in> set cats" "v = zulu (snd d)"
      unfolding strings by auto
    then show ?thesis
    proof cases
      case category
      let ?ds = "filter (\<lambda>d. c_name (h' (t_category t)) = fst d) cats"
      have "?ds \<noteq> []"
        using tds(2) category(1) by blast
      then have "hd ?ds \<in> set ?ds"
        by (rule hd_in_set)
      then have "hd ?ds \<in> set cats"
        by simp
      then show ?thesis
        unfolding category(2) by (rule cat)
    next
      case own
      then show ?thesis
        by (auto simp: zulu_isoformat)
    next
      case array
      then show ?thesis
        using cat by simp
    qed
  qed
  have "(\<exists>t. ?stamp t \<and> v = isoformat_z t) \<and> CHR ''+'' \<notin> set v \<and> last v = CHR ''Z''"
    if "v \<in> set (strings_at ''created_at'' ?doc)" for v
  proof -
    from stamps [OF that] obtain t where t: "?stamp t" "v = isoformat_z t"
      by blast
    then have "CHR ''+'' \<notin> set v" "last v = CHR ''Z''"
      by (simp_all add: isoformat_z_plus) (simp add: isoformat_z_def)
    with t show ?thesis
      by blast
  qed
  then show ?thesis
    using repr_document [OF assms] len by blast
qed

text \<open>
  A ledger of two transactions that share one category instance named Food, of
  2024-01-15T19:30:00 and 2023-12-31T07:05:09 UTC.
\<close>

theorem created_at_zulu_witness:
  "let doc = JDict
       [(''transactions'', JList
          [JDict [(''category'', JDict [(''name'', JString ''Food''),
                                        (''created_at'', JString ''2023-12-31T07:05:09Z'')]),
                  (''description'', JString ''lunch''),
                  (''amount'', JFloat ''12.5''),
                  (''created_at'', JString ''2024-01-15T19:30:00Z'')],
           JDict [(''category'', JDict [(''name'', JString ''Food''),
                                        (''created_at'', JString ''2023-12-31T07:05:09Z'')]),
                  (''description'', JString ''dinner''),
                  (''amount'', JFloat ''12.5''),
                  (''created_at'', JString ''2023-12-31T07:05:09Z'')]]),
        (''categories'', JList
          [JDict [(''name'', JString ''Food''),
                  (''created_at'', JString ''2023-12-31T07:05:09Z'')]])]
   in repr (\<lambda>d. ''12.5'') [0]
        [\<lparr>t_created_at = 63840943800000000, t_amount = Finite False 125 (- 1),
           t_category = 0, t_notes = ''lunch''\<rparr>,
         \<lparr>t_created_at = 63839603109000000, t_amount = Finite False 125 (- 1),
           t_category = 0, t_notes = ''dinner''\<rparr>]
        (\<lambda>r. \<lparr>c_name = ''Food'', c_created_at = None\<rparr>)
      = Inr (dumps doc,
          (\<lambda>r. \<lparr>c_name = ''Food'', c_created_at = None\<rparr>)
            (0 := \<lparr>c_name = ''Food'', c_created_at = Some 63839603109000000\<rparr>))
      \<and> strings_at ''created_at'' doc
          = [''2023-12-31T07:05:09Z'', ''2024-01-15T19:30:00Z'',
             ''2023-12-31T07:05:09Z'', ''2023-12-31T07:05:09Z'',
             ''2023-12-31T07:05:09Z'']"
proof -
  let ?txs = "[\<lparr>t_created_at = 63840943800000000, t_amount = Finite False 125 (- 1),
        t_category = 0, t_notes = ''lunch''\<rparr>,
      \<lparr>t_created_at = 63839603109000000, t_amount = Finite False 125 (- 1),
        t_category = 0, t_notes = ''dinner''\<rparr>]"
  let ?h = "\<lambda>r::ref. \<lparr>c_name = ''Food'', c_created_at = None\<rparr>"
  let ?h' = "?h(0 := \<lparr>c_name = ''Food'', c_created_at = Some 63839603109000000\<rparr>)"
  let ?cats = "[(''Food'', ''2023-12-31T07:05:09+00:00'')]"
  let ?tds = "[JDict [(''category'', category_dict (''Food'', ''2023-12-31T07:05:09+00:00'')),
                  (''description'', JString ''lunch''),
                  (''amount'', JFloat ''12.5''),
                  (''created_at'', JString ''2024-01-15T19:30:00+00:00'')],
           JDict [(''category'', category_dict (''Food'', ''2023-12-31T07:05:09+00:00'')),
                  (''description'', JString ''dinner''),
                  (''amount'', JFloat ''12.5''),
                  (''created_at'', JString ''2023-12-31T07:05:09+00:00'')]]"
  have a: "set_default_category_created_ats ?txs ?h = Inr ?h'"
    by (simp add: set_default_category_created_ats_def)
  have i: "isoformat 63839603109000000 = ''2023-12-31T07:05:09+00:00''"
      "isoformat 63840943800000000 = ''2024-01-15T19:30:00+00:00''"
    by code_simp+
  have b: "categories_loop ?h' [0] = Inr ?cats"
    by (simp add: bind_def i)
  have c: "transactions_loop (\<lambda>d. ''12.5'') ?h' ?cats ?txs = Inr ?tds"
    by (simp add: bind_def i py_float_def)
  let ?doc = "JDict
       [(''transactions'', JList
          [JDict [(''category'', JDict [(''name'', JString ''Food''),
                                        (''created_at'', JString ''2023-12-31T07:05:09Z'')]),
                  (''description'', JString ''lunch''),
                  (''amount'', JFloat ''12.5''),
                  (''created_at'', JString ''2024-01-15T19:30:00Z'')],
           JDict [(''category'', JDict [(''name'', JString ''Food''),
                                        (''created_at'', JString ''2023-12-31T07:05:09Z'')]),
                  (''description'', JString ''dinner''),
                  (''amount'', JFloat ''12.5''),
                  (''created_at'', JString ''2023-12-31T07:05:09Z'')]]),
        (''categories'', JList
          [JDict [(''name'', JString ''Food''),
                  (''created_at'', JString ''2023-12-31T07:05:09Z'')]])]"
  have d: "substitute (top_level ?tds ?cats) = ?doc"
    by code_simp
  have e: "strings_at ''created_at'' ?doc
          = [''2023-12-31T07:05:09Z'', ''2024-01-15T19:30:00Z'',
             ''2023-12-31T07:05:09Z'', ''2023-12-31T07:05:09Z'',
             ''2023-12-31T07:05:09Z'']"
    by simp
  have "repr (\<lambda>d. ''12.5'') [0] ?txs ?h = Inr (dumps ?doc, ?h')"
    using created_at_zulu [OF a b c, THEN conjunct1] unfolding d .
  from this e show ?thesis
    unfolding Let_def by (rule conjI)
qed

section \<open>The replacement in the descriptions and the names\<close>

lemma description_category:
  "strings_at ''description'' (substitute (category_dict d)) = []"
  by (simp add: category_dict_def zulu_keys)

lemma description_transaction:
  "strings_at ''description'' (substitute (transaction_dict float_repr h cats t))
     = [zulu (t_notes t)]"
  by (simp add: transaction_dict_def category_dict_def zulu_keys)

lemma name_category:
  "strings_at ''name'' (substitute (category_dict d)) = [zulu (fst d)]"
  by (simp add: category_dict_def zulu_keys)

lemma name_transaction:
  "strings_at ''name'' (substitute (transaction_dict float_repr h cats t))
     = [zulu (fst (hd (filter (\<lambda>d. c_name (h (t_category t)) = fst d) cats)))]"
  by (simp add: transaction_dict_def category_dict_def zulu_keys)

lemma first_of_name:
  assumes "filter (\<lambda>d. n = fst d) cats \<noteq> []"
  shows "fst (hd (filter (\<lambda>d. n = fst d) cats)) = n"
proof -
  from assms have "hd (filter (\<lambda>d. n = fst d) cats) \<in> set (filter (\<lambda>d. n = fst d) cats)"
    by (rule hd_in_set)
  then show ?thesis
    by simp
qed

text \<open>
  Claim C9. The replacement is applied to the whole text: when \<^verbatim>\<open>__repr__\<close>
  returns, its text is the JSON text of a document in which the description of every
  transaction is its notes after the replacement of \<^verbatim>\<open>+00:00\<close> by \<^verbatim>\<open>Z\<close>, and
  every name, in the category dictionaries of the transactions and in the array of
  categories, is the name of the category after the same replacement. The ledger that
  follows the theorem has notes and a category name that contain \<^verbatim>\<open>+00:00\<close>.
\<close>

theorem replacement_reaches_every_string:
  assumes "set_default_category_created_ats txs h = Inr h'"
    and "categories_loop h' cs = Inr cats"
    and "transactions_loop float_repr h' cats txs = Inr tds"
  shows "repr float_repr cs txs h = Inr (dumps (substitute (top_level tds cats)), h')
       \<and> strings_at ''description'' (substitute (top_level tds cats))
           = map (\<lambda>t. str_replace ''+00:00'' ''Z'' (t_notes t)) txs
       \<and> strings_at ''name'' (substitute (top_level tds cats))
           = map (\<lambda>t. str_replace ''+00:00'' ''Z'' (c_name (h' (t_category t)))) txs
               @ map (\<lambda>c. str_replace ''+00:00'' ''Z'' (c_name (h' c))) cs"
proof -
  note cats = categories_loop_Inr [OF assms(2)]
  note tds = transactions_loop_Inr [OF assms(3)]
  have descriptions: "strings_at ''description'' (substitute (top_level tds cats))
           = map (\<lambda>t. zulu (t_notes t)) txs"
    unfolding strings_at_top_level tds(1)
    by (simp add: comp_def description_category description_transaction)
  have "map (\<lambda>t. zulu (fst (hd (filter (\<lambda>d. c_name (h' (t_category t)) = fst d) cats)))) txs
          = map (\<lambda>t. zulu (c_name (h' (t_category t)))) txs"
    using tds(2) by (simp add: first_of_name)
  moreover have "map (\<lambda>d. zulu (fst d)) cats = map (\<lambda>c. zulu (c_name (h' c))) cs"
    unfolding cats(1) by (simp add: comp_def)
  ultimately have names: "strings_at ''name'' (substitute (top_level tds cats))
           = map (\<lambda>t. zulu (c_name (h' (t_category t)))) txs
               @ map (\<lambda>c. zulu (c_name (h' c))) cs"
    unfolding strings_at_top_level tds(1)
    by (simp add: comp_def name_category name_transaction)
  show ?thesis
    using repr_document [OF assms] descriptions names unfolding zulu_def by blast
qed

text \<open>
  A ledger of one transaction with the notes \<^verbatim>\<open>refund +00:00\<close>, in a category named
  \<^verbatim>\<open>Food +00:00\<close>, at 2024-01-15T19:30:00 UTC.
\<close>

theorem replacement_reaches_every_string_witness:
  "let doc = JDict
       [(''transactions'', JList
          [JDict [(''category'', JDict [(''name'', JString ''Food Z''),
                                        (''created_at'', JString ''2024-01-15T19:30:00Z'')]),
                  (''description'', JString ''refund Z''),
                  (''amount'', JFloat ''-5.0''),
                  (''created_at'', JString ''2024-01-15T19:30:00Z'')]]),
        (''categories'', JList
          [JDict [(''name'', JString ''Food Z''),
                  (''created_at'', JString ''2024-01-15T19:30:00Z'')]])]
   in repr (\<lambda>d. ''-5.0'') [0]
        [\<lparr>t_created_at = 63840943800000000, t_amount = Finite True 5 0,
           t_category = 0, t_notes = ''refund +00:00''\<rparr>]
        (\<lambda>r. \<lparr>c_name = ''Food +00:00'', c_created_at = None\<rparr>)
      = Inr (dumps doc,
          (\<lambda>r. \<lparr>c_name = ''Food +00:00'', c_created_at = None\<rparr>)
            (0 := \<lparr>c_name = ''Food +00:00'', c_created_at = Some 63840943800000000\<rparr>))
      \<and> strings_at ''description'' doc = [''refund Z'']
      \<and> strings_at ''name'' doc = [''Food Z'', ''Food Z'']"
proof -
  let ?txs = "[\<lparr>t_created_at = 63840943800000000, t_amount = Finite True 5 0,
           t_category = 0, t_notes = ''refund +00:00''\<rparr>]"
  let ?h = "\<lambda>r::ref. \<lparr>c_name = ''Food +00:00'', c_created_at = None\<rparr>"
  let ?h' = "?h(0 := \<lparr>c_name = ''Food +00:00'', c_created_at = Some 63840943800000000\<rparr>)"
  let ?cats = "[(''Food +00:00'', ''2024-01-15T19:30:00+00:00'')]"
  let ?tds = "[JDict [(''category'', category_dict (''Food +00:00'', ''2024-01-15T19:30:00+00:00'')),
                  (''description'', JString ''refund +00:00''),
                  (''amount'', JFloat ''-5.0''),
                  (''created_at'', JString ''2024-01-15T19:30:00+00:00'')]]"
  let ?doc = "JDict
       [(''transactions'', JList
          [JDict [(''category'', JDict [(''name'', JString ''Food Z''),
                                        (''created_at'', JString ''2024-01-15T19:30:00Z'')]),
                  (''description'', JString ''refund Z''),
                  (''amount'', JFloat ''-5.0''),
                  (''created_at'', JString ''2024-01-15T19:30:00Z'')]]),
        (''categories'', JList
          [JDict [(''name'', JString ''Food Z''),
                  (''created_at'', JString ''2024-01-15T19:30:00Z'')]])]"
  have a: "set_default_category_created_ats ?txs ?h = Inr ?h'"
    by (simp add: set_default_category_created_ats_def)
  have i: "isoformat 63840943800000000 = ''2024-01-15T19:30:00+00:00''"
    by code_simp
  have b: "categories_loop ?h' [0] = Inr ?cats"
    by (simp add: bind_def i)
  have c: "transactions_loop (\<lambda>d. ''-5.0'') ?h' ?cats ?txs = Inr ?tds"
    by (simp add: bind_def i py_float_def)
  have d: "substitute (top_level ?tds ?cats) = ?doc"
    by code_simp
  have e: "strings_at ''description'' ?doc = [''refund Z'']"
      "strings_at ''name'' ?doc = [''Food Z'', ''Food Z'']"
    by simp_all
  have "repr (\<lambda>d. ''-5.0'') [0] ?txs ?h = Inr (dumps ?doc, ?h')"
    using replacement_reaches_every_string [OF a b c, THEN conjunct1] unfolding d .
  with e show ?thesis
    unfolding Let_def by simp
qed

end
